theory Spec2Isabelle
  imports Main
begin

section \<open>JavaScript array primitives\<close>

text \<open>
  Indices and pixel heights are JavaScript numbers in the source; they are modelled as
  unbounded integers (fractions, NaN and the 2^53 limit are outside the model).

  \<open>Array.prototype.slice(begin, end)\<close>: a negative bound counts from the end of the
  array, a bound beyond the length is clamped, and an empty range gives the empty array.
  With \<open>end\<close> omitted the slice runs to the end of the array.
\<close>

definition js_slice :: "'a list \<Rightarrow> int \<Rightarrow> int \<Rightarrow> 'a list" where
  "js_slice xs b e =
     (let len = int (length xs);
          k = (if b < 0 then max (len + b) 0 else min b len);
          fin = (if e < 0 then max (len + e) 0 else min e len)
      in take (nat (fin - k)) (drop (nat k) xs))"

definition js_slice_from :: "'a list \<Rightarrow> int \<Rightarrow> 'a list" where
  "js_slice_from xs b = js_slice xs b (int (length xs))"

section \<open>The item model: ViewModel\<close>

text \<open>\<open>IListItem\<close>, as implemented by \<open>MySpecialItem\<close>: a height and a content string.\<close>

record list_item =
  item_height :: int
  item_content :: string

record view_model_item =
  cachedHeight :: int
  actual :: list_item

record view_model_changed_event =
  vm_versionId :: int
  vm_start :: int
  vm_deleteCnt :: int
  vm_inserted :: "int list"

record view_model =
  items :: "view_model_item list"
  model_versionId :: int

text \<open>The errors the specification names for the model. The source has no \<open>throw\<close>.\<close>

datatype error = RangeError

definition toMyItems :: "list_item list \<Rightarrow> view_model_item list" where
  "toMyItems inp = map (\<lambda>i. \<lparr>cachedHeight = item_height i, actual = i\<rparr>) inp"

definition new_view_model :: "list_item list \<Rightarrow> view_model" where
  "new_view_model its = \<lparr>items = toMyItems its, model_versionId = 1\<rparr>"

definition getAllHeights :: "view_model \<Rightarrow> int list" where
  "getAllHeights m = map cachedHeight (items m)"

text \<open>
  \<open>ViewModel.splice\<close>. The result is the new model together with the events fired on
  \<open>_onDidChange\<close> during the call, in order; \<open>Inl\<close> would be a raised error. The body
  of the source has no guard and no \<open>throw\<close>, so every call takes the \<open>Inr\<close> branch.
\<close>

definition ViewModel_splice ::
  "view_model \<Rightarrow> int \<Rightarrow> int \<Rightarrow> list_item list \<Rightarrow> error + (view_model \<times> view_model_changed_event list)"
where
  "ViewModel_splice m start deleteCnt new_items =
     (let its = toMyItems new_items;
          v = model_versionId m + 1;
          before = js_slice (items m) 0 start;
          after = js_slice_from (items m) (start + deleteCnt)
      in Inr (\<lparr>items = before @ its @ after, model_versionId = v\<rparr>,
              [\<lparr>vm_versionId = v, vm_start = start, vm_deleteCnt = deleteCnt,
                vm_inserted = map cachedHeight its\<rparr>]))"

section \<open>The change event decomposition: ListViewItemsChangedEvent\<close>

record items_changed_event =
  versionId :: int
  changedStart :: int
  changed :: "int list"
  insertStart :: int
  inserted :: "int list"
  deleteStart :: int
  deleteCnt :: int

text \<open>The constructor of \<open>ListViewItemsChangedEvent\<close>, field by field in source order.\<close>

definition ListViewItemsChangedEvent :: "view_model_changed_event \<Rightarrow> items_changed_event" where
  "ListViewItemsChangedEvent e =
     (let cs = vm_start e;
          ch = js_slice (vm_inserted e) 0 (min (vm_deleteCnt e) (int (length (vm_inserted e))))
      in \<lparr>versionId = vm_versionId e,
          changedStart = cs,
          changed = ch,
          insertStart = cs + int (length ch),
          inserted = js_slice_from (vm_inserted e) (int (length ch)),
          deleteStart = cs + int (length ch),
          deleteCnt = vm_deleteCnt e - int (length ch)\<rparr>)"

section \<open>The offset index: PrefixSumComputer\<close>

text \<open>
  Modelled from the spec: the class \<open>PrefixSumComputer\<close> of
  \<open>vs/editor/common/viewModel/prefixSumComputer\<close> is imported by the source but is not
  among the files at hand. The specification gives its contract (section 6): an ordered
  sequence of per-item sizes with \<open>totalValue()\<close>, \<open>count()\<close>, \<open>valueAt(i)\<close>,
  \<open>accumulatedValueUpTo(i)\<close>, \<open>indexOfOffset(y) -> {index, remainder}\<close>,
  \<open>replaceRange(start, newValues)\<close>, \<open>removeRange(start, count)\<close> and
  \<open>insertRange(start, newValues)\<close>. The index is the list of sizes; the names below are
  the method names the source calls. Ranges are meant inside the sequence; the
  specification says nothing about ranges outside it.
\<close>

type_synonym prefix_sum_computer = "int list"

definition getCount :: "prefix_sum_computer \<Rightarrow> int" where
  "getCount vs = int (length vs)"

definition getTotalValue :: "prefix_sum_computer \<Rightarrow> int" where
  "getTotalValue vs = sum_list vs"

definition getValue :: "prefix_sum_computer \<Rightarrow> int \<Rightarrow> int" where
  "getValue vs i = vs ! nat i"

text \<open>
  Modelled from the spec: \<open>accumulatedValueUpTo(i)\<close> is the sum of the sizes of the
  entries \<open>0..i\<close>, entry \<open>i\<close> included, and \<open>0\<close> for \<open>i < 0\<close>: section 4.4 takes
  \<open>accumulatedValueUpTo(startIndex - 1)\<close> as the absolute top offset of item
  \<open>startIndex\<close>.
\<close>

definition getAccumulatedValue :: "prefix_sum_computer \<Rightarrow> int \<Rightarrow> int" where
  "getAccumulatedValue vs i = sum_list (take (nat (i + 1)) vs)"

text \<open>
  Modelled from the spec: \<open>indexOfOffset(y)\<close> answers with the index of the item that
  contains offset \<open>y\<close> and the remainder of \<open>y\<close> inside that item; an offset beyond the
  total is clamped to the last item and never fails (section 4.4). The walk below passes
  \<open>y\<close> reduced by the sizes already skipped. For an index without entries the
  specification is silent; the model answers index \<open>0\<close> and remainder \<open>0\<close>, the values
  the caller initialises its result object with.
\<close>

fun indexOf_walk :: "int list \<Rightarrow> int \<Rightarrow> int \<Rightarrow> int \<times> int" where
  "indexOf_walk [] y i = (i, y)"
| "indexOf_walk [v] y i = (i, y)"
| "indexOf_walk (v # w # vs) y i =
     (if y < v then (i, y) else indexOf_walk (w # vs) (y - v) (i + 1))"

definition getIndexOf :: "prefix_sum_computer \<Rightarrow> int \<Rightarrow> int \<times> int" where
  "getIndexOf vs y = (if vs = [] then (0, 0) else indexOf_walk vs y 0)"

text \<open>
  Modelled from the spec: "replace a contiguous run of sizes", "delete a run", "insert a
  run" (section 2), the run starting at \<open>start\<close>.
\<close>

definition changeValues :: "int \<Rightarrow> int list \<Rightarrow> prefix_sum_computer \<Rightarrow> prefix_sum_computer" where
  "changeValues start new_values vs =
     take (nat start) vs @ new_values @ drop (nat start + length new_values) vs"

definition removeValues :: "int \<Rightarrow> int \<Rightarrow> prefix_sum_computer \<Rightarrow> prefix_sum_computer" where
  "removeValues start cnt vs = take (nat start) vs @ drop (nat start + nat cnt) vs"

definition insertValues :: "int \<Rightarrow> int list \<Rightarrow> prefix_sum_computer \<Rightarrow> prefix_sum_computer" where
  "insertValues start new_values vs = take (nat start) vs @ new_values @ drop (nat start) vs"

section \<open>The events of the list view\<close>

record dimension =
  dim_width :: int
  dim_height :: int

record scroll_event =
  ev_vertical :: bool
  ev_horizontal :: bool
  ev_scrollTop :: int
  ev_scrollLeft :: int

text \<open>
  The subclasses of \<open>ListViewEvent\<close> that \<open>flush\<close> tells apart with \<open>instanceof\<close>;
  \<open>OtherEvent\<close> stands for any other instance (the "unknown event" branch).
\<close>

datatype list_view_event =
    DimensionChanged dimension
  | Scroll scroll_event
  | ItemsChanged items_changed_event
  | OtherEvent

section \<open>The scrollable surface: Scrollable\<close>

record scrollable =
  scrollTop :: int
  scrollLeft :: int
  scrollWidth :: int
  scrollHeight :: int
  width :: int
  height :: int

text \<open>
  Every setter returns the new state and the scroll events it fires on \<open>_onDidScroll\<close>,
  in order. \<open>Math.floor\<close> is the identity on the integers of the model. The internal
  size event only reaches the scrollbar widget, which is outside the model.
\<close>

definition new_Scrollable :: scrollable where
  "new_Scrollable = \<lparr>scrollTop = 0, scrollLeft = 0, scrollWidth = 0, scrollHeight = 0,
                      width = 0, height = 0\<rparr>"

definition setScrollLeft :: "int \<Rightarrow> scrollable \<Rightarrow> scrollable \<times> scroll_event list" where
  "setScrollLeft sl s =
     (let sl1 = (if sl < 0 then 0 else sl);
          sl2 = (if sl1 + width s > scrollWidth s then scrollWidth s - width s else sl1)
      in if scrollLeft s \<noteq> sl2
         then (s\<lparr>scrollLeft := sl2\<rparr>,
               [\<lparr>ev_vertical = False, ev_horizontal = True,
                 ev_scrollTop = scrollTop s, ev_scrollLeft = sl2\<rparr>])
         else (s, []))"

definition setScrollWidth :: "int \<Rightarrow> scrollable \<Rightarrow> scrollable \<times> scroll_event list" where
  "setScrollWidth sw s =
     (let sw1 = (if sw < width s then width s else sw)
      in if scrollWidth s \<noteq> sw1
         then setScrollLeft (scrollLeft s) (s\<lparr>scrollWidth := sw1\<rparr>)
         else (s, []))"

definition setWidth :: "int \<Rightarrow> scrollable \<Rightarrow> scrollable \<times> scroll_event list" where
  "setWidth w s =
     (let w1 = (if w < 0 then 0 else w)
      in if width s \<noteq> w1
         then (let (s1, ev1) = setScrollWidth (scrollWidth s) (s\<lparr>width := w1\<rparr>);
                   (s2, ev2) = setScrollLeft (scrollLeft s1) s1
               in (s2, ev1 @ ev2))
         else (s, []))"

definition setScrollTop :: "int \<Rightarrow> scrollable \<Rightarrow> scrollable \<times> scroll_event list" where
  "setScrollTop st s =
     (let st1 = (if st < 0 then 0 else st);
          st2 = (if st1 + height s > scrollHeight s then scrollHeight s - height s else st1)
      in if scrollTop s \<noteq> st2
         then (s\<lparr>scrollTop := st2\<rparr>,
               [\<lparr>ev_vertical = True, ev_horizontal = False,
                 ev_scrollTop = st2, ev_scrollLeft = scrollLeft s\<rparr>])
         else (s, []))"

definition setScrollHeight :: "int \<Rightarrow> scrollable \<Rightarrow> scrollable \<times> scroll_event list" where
  "setScrollHeight sh s =
     (let sh1 = (if sh < height s then height s else sh)
      in if scrollHeight s \<noteq> sh1
         then setScrollTop (scrollTop s) (s\<lparr>scrollHeight := sh1\<rparr>)
         else (s, []))"

definition setHeight :: "int \<Rightarrow> scrollable \<Rightarrow> scrollable \<times> scroll_event list" where
  "setHeight h s =
     (let h1 = (if h < 0 then 0 else h)
      in if height s \<noteq> h1
         then (let (s1, ev1) = setScrollHeight (scrollHeight s) (s\<lparr>height := h1\<rparr>);
                   (s2, ev2) = setScrollTop (scrollTop s1) s1
               in (s2, ev1 @ ev2))
         else (s, []))"

section \<open>The layout engine: ListViewLayout\<close>

record list_view_layout =
  layout_scrollable :: scrollable
  layoutData :: prefix_sum_computer

record render_data =
  startIndex :: int
  tops :: "int list"
  rd_width :: int
  rd_height :: int
  rd_scrollLeft :: int
  rd_scrollTop :: int
  rd_scrollWidth :: int
  rd_scrollHeight :: int

text \<open>
  The constructor: the index is built from a copy of the model's heights, and the scroll
  height of a fresh \<open>Scrollable\<close> is set to the total (no scroll listener is attached yet,
  so the events of that call reach nobody).
\<close>

definition new_ListViewLayout :: "view_model \<Rightarrow> list_view_layout" where
  "new_ListViewLayout m =
     (let ld = js_slice_from (getAllHeights m) 0
      in \<lparr>layout_scrollable = fst (setScrollHeight (getTotalValue ld) new_Scrollable),
          layoutData = ld\<rparr>)"

text \<open>\<open>ListViewLayout.onItemsChanged\<close>, on the index: changed, then deleted, then inserted.\<close>

definition Layout_onItemsChanged ::
  "items_changed_event \<Rightarrow> prefix_sum_computer \<Rightarrow> prefix_sum_computer" where
  "Layout_onItemsChanged e ld =
     (let ld1 = changeValues (changedStart e) (changed e) ld;
          ld2 = removeValues (deleteStart e) (deleteCnt e) ld1
      in insertValues (insertStart e) (inserted e) ld2)"

text \<open>
  The loop of \<open>getRenderData\<close>: \<open>r\<close> is the array built so far. It ends when
  \<open>currentIndex\<close> reaches the count or at the \<open>break\<close>.
\<close>

function tops_loop :: "prefix_sum_computer \<Rightarrow> int \<Rightarrow> int \<Rightarrow> int \<Rightarrow> int list \<Rightarrow> int list" where
  "tops_loop ld offset2 currentIndex currentOffset r =
     (if currentIndex < getCount ld
      then (if currentOffset > offset2 then r
            else tops_loop ld offset2 (currentIndex + 1)
                   (currentOffset + getValue ld currentIndex) (r @ [currentOffset]))
      else r)"
  by pat_completeness auto
termination
  by (relation "measure (\<lambda>(ld, offset2, currentIndex, currentOffset, r).
                  nat (getCount ld - currentIndex))") auto

declare tops_loop.simps [simp del]

definition getRenderData :: "list_view_layout \<Rightarrow> render_data" where
  "getRenderData l =
     (let sc = layout_scrollable l;
          offset1 = scrollTop sc;
          offset2 = scrollTop sc + height sc;
          tmp = getIndexOf (layoutData l) offset1;
          start = fst tmp;
          r = tops_loop (layoutData l) offset2 start
                (getAccumulatedValue (layoutData l) (start - 1)) []
      in \<lparr>startIndex = start, tops = r,
          rd_width = width sc, rd_height = height sc,
          rd_scrollLeft = scrollLeft sc, rd_scrollTop = scrollTop sc,
          rd_scrollWidth = scrollWidth sc, rd_scrollHeight = scrollHeight sc\<rparr>)"

section \<open>The event dispatcher: ListViewContext\<close>

text \<open>
  A listener is an object with the four callbacks of \<open>ListViewListener\<close>; it is
  represented by its identity. What the callbacks do is a parameter of the model: a
  listener table gives, for a listener and a callback, the new state of everything outside
  the context (the listeners' own fields and whatever else they reach) and the public
  methods of the context that the callback calls, in order. The private fields
  \<open>_listeners\<close> and \<open>_events\<close> are reachable through those methods only.
  The field \<open>invoked\<close> is a log of the callbacks invoked so far; no code reads it.
\<close>

type_synonym lid = nat

datatype callback =
    OnBeforeEventsDispatch
  | OnDimensionChanged dimension
  | OnItemsChanged items_changed_event
  | OnAfterEventsDispatch

datatype ctx_call =
    AddEventHandler lid
  | RemoveEventHandler lid
  | EmitSoon list_view_event

record 'w list_view_context =
  listeners :: "lid list"
  events :: "list_view_event list"
  invoked :: "(lid \<times> callback) list"
  world :: 'w

type_synonym 'w listener_table = "lid \<Rightarrow> callback \<Rightarrow> 'w \<Rightarrow> 'w \<times> ctx_call list"

definition new_ListViewContext :: "'w \<Rightarrow> 'w list_view_context" where
  "new_ListViewContext w = \<lparr>listeners = [], events = [], invoked = [], world = w\<rparr>"

definition addEventHandler :: "lid \<Rightarrow> 'w list_view_context \<Rightarrow> 'w list_view_context" where
  "addEventHandler h c = c\<lparr>listeners := listeners c @ [h]\<rparr>"

definition removeEventHandler :: "lid \<Rightarrow> 'w list_view_context \<Rightarrow> 'w list_view_context" where
  "removeEventHandler h c = c\<lparr>listeners := remove1 h (listeners c)\<rparr>"

text \<open>\<open>emitSoon\<close>: the event is queued, then the owner's \<open>onEventAdded\<close> runs.\<close>

definition emitSoon ::
  "('w \<Rightarrow> 'w) \<Rightarrow> list_view_event \<Rightarrow> 'w list_view_context \<Rightarrow> 'w list_view_context" where
  "emitSoon onEventAdded e c = c\<lparr>events := events c @ [e], world := onEventAdded (world c)\<rparr>"

definition perform ::
  "('w \<Rightarrow> 'w) \<Rightarrow> 'w list_view_context \<Rightarrow> ctx_call \<Rightarrow> 'w list_view_context" where
  "perform onEventAdded c call =
     (case call of
        AddEventHandler h \<Rightarrow> addEventHandler h c
      | RemoveEventHandler h \<Rightarrow> removeEventHandler h c
      | EmitSoon e \<Rightarrow> emitSoon onEventAdded e c)"

text \<open>One callback of one listener is invoked.\<close>

definition invoke ::
  "'w listener_table \<Rightarrow> ('w \<Rightarrow> 'w) \<Rightarrow> callback \<Rightarrow> 'w list_view_context \<Rightarrow> lid
     \<Rightarrow> 'w list_view_context" where
  "invoke H onEventAdded cb c h =
     (let (w', calls) = H h cb (world c)
      in foldl (perform onEventAdded) (c\<lparr>invoked := invoked c @ [(h, cb)], world := w'\<rparr>) calls)"

text \<open>The \<open>for\<close> loops of \<open>flush\<close> over the array \<open>eventHandlers\<close>.\<close>

definition call_all ::
  "'w listener_table \<Rightarrow> ('w \<Rightarrow> 'w) \<Rightarrow> lid list \<Rightarrow> callback \<Rightarrow> 'w list_view_context
     \<Rightarrow> 'w list_view_context" where
  "call_all H onEventAdded eventHandlers cb c = foldl (invoke H onEventAdded cb) c eventHandlers"

text \<open>The body of the \<open>while\<close> loop after the \<open>shift\<close>.\<close>

definition dispatch ::
  "'w listener_table \<Rightarrow> ('w \<Rightarrow> 'w) \<Rightarrow> lid list \<Rightarrow> list_view_event \<Rightarrow> 'w list_view_context
     \<Rightarrow> 'w list_view_context" where
  "dispatch H onEventAdded eventHandlers e c =
     (case e of
        DimensionChanged d \<Rightarrow> call_all H onEventAdded eventHandlers (OnDimensionChanged d) c
      | Scroll se \<Rightarrow> c
      | ItemsChanged ic \<Rightarrow> call_all H onEventAdded eventHandlers (OnItemsChanged ic) c
      | OtherEvent \<Rightarrow> c)"

text \<open>
  The \<open>while\<close> loop of \<open>flush\<close>. A callback may queue further events, so the loop need
  not end; it runs on fuel, one unit for every event shifted, and \<open>None\<close> is the loop
  that has not emptied the queue when the fuel is spent.
\<close>

fun flush_loop ::
  "'w listener_table \<Rightarrow> ('w \<Rightarrow> 'w) \<Rightarrow> lid list \<Rightarrow> nat \<Rightarrow> 'w list_view_context
     \<Rightarrow> 'w list_view_context option" where
  "flush_loop H onEventAdded eventHandlers 0 c = (if events c = [] then Some c else None)"
| "flush_loop H onEventAdded eventHandlers (Suc n) c =
     (case events c of
        [] \<Rightarrow> Some c
      | e # es \<Rightarrow>
          flush_loop H onEventAdded eventHandlers n
            (dispatch H onEventAdded eventHandlers e (c\<lparr>events := es\<rparr>)))"

definition flush ::
  "'w listener_table \<Rightarrow> ('w \<Rightarrow> 'w) \<Rightarrow> nat \<Rightarrow> 'w list_view_context
     \<Rightarrow> 'w list_view_context option" where
  "flush H onEventAdded fuel c =
     (let eventHandlers = js_slice_from (listeners c) 0;
          c1 = call_all H onEventAdded eventHandlers OnBeforeEventsDispatch c
      in case flush_loop H onEventAdded eventHandlers fuel c1 of
           None \<Rightarrow> None
         | Some c2 \<Rightarrow> Some (call_all H onEventAdded eventHandlers OnAfterEventsDispatch c2))"

text \<open>
  The order of callbacks the specification describes for one flush over the listeners
  \<open>hs\<close> and the events \<open>es\<close>: "before" on all, every event in order to the listeners it
  concerns, "after" on all.
\<close>

definition event_calls :: "lid list \<Rightarrow> list_view_event \<Rightarrow> (lid \<times> callback) list" where
  "event_calls hs e =
     (case e of
        DimensionChanged d \<Rightarrow> map (\<lambda>h. (h, OnDimensionChanged d)) hs
      | Scroll se \<Rightarrow> []
      | ItemsChanged ic \<Rightarrow> map (\<lambda>h. (h, OnItemsChanged ic)) hs
      | OtherEvent \<Rightarrow> [])"

definition flush_order :: "lid list \<Rightarrow> list_view_event list \<Rightarrow> (lid \<times> callback) list" where
  "flush_order hs es =
     map (\<lambda>h. (h, OnBeforeEventsDispatch)) hs
     @ concat (map (event_calls hs) es)
     @ map (\<lambda>h. (h, OnAfterEventsDispatch)) hs"

text \<open>The two entry points of \<open>ListView\<close> that queue events.\<close>

definition acceptDimension ::
  "('w \<Rightarrow> 'w) \<Rightarrow> dimension \<Rightarrow> 'w list_view_context \<Rightarrow> 'w list_view_context" where
  "acceptDimension onEventAdded d c = emitSoon onEventAdded (DimensionChanged d) c"

definition acceptViewModelEvent ::
  "('w \<Rightarrow> 'w) \<Rightarrow> 'w list_view_context \<Rightarrow> view_model_changed_event \<Rightarrow> 'w list_view_context" where
  "acceptViewModelEvent onEventAdded c e =
     emitSoon onEventAdded (ItemsChanged (ListViewItemsChangedEvent e)) c"

section \<open>The layout engine as a listener\<close>

text \<open>
  The callbacks of \<open>ListViewLayout\<close>. Its scroll listener forwards every scroll event
  of the \<open>Scrollable\<close> to \<open>emitSoon\<close>. The calls on the scrollbar widget are outside the
  model.
\<close>

definition Layout_listener :: "callback \<Rightarrow> list_view_layout \<Rightarrow> list_view_layout \<times> ctx_call list" where
  "Layout_listener cb l =
     (case cb of
        OnBeforeEventsDispatch \<Rightarrow> (l, [])
      | OnDimensionChanged d \<Rightarrow>
          (let (s1, ev1) = setWidth (dim_width d) (layout_scrollable l);
               (s2, ev2) = setHeight (dim_height d) s1
           in (l\<lparr>layout_scrollable := s2\<rparr>, map (\<lambda>se. EmitSoon (Scroll se)) (ev1 @ ev2)))
      | OnItemsChanged e \<Rightarrow> (l\<lparr>layoutData := Layout_onItemsChanged e (layoutData l)\<rparr>, [])
      | OnAfterEventsDispatch \<Rightarrow>
          (let (s1, ev1) = setScrollHeight (getTotalValue (layoutData l)) (layout_scrollable l)
           in (l\<lparr>layout_scrollable := s1\<rparr>, map (\<lambda>se. EmitSoon (Scroll se)) ev1)))"

section \<open>A model bound to a layout engine\<close>

text \<open>
  The item model together with a context whose listener is the layout engine: the part
  of the widget that keeps the offset index. \<open>ListWidget.setModel\<close> subscribes the view
  to the model, so every event fired by \<open>splice\<close> is passed to \<open>acceptViewModelEvent\<close>;
  \<open>ListWidget.layout\<close> passes a dimension to \<open>acceptDimension\<close>; a dispatch cycle is a
  \<open>flush\<close>. The owner's \<open>onEventAdded\<close> only requests a rendering callback and does not
  touch the layout engine, so it is the identity here.
\<close>

record bound_model =
  bound_items :: view_model
  bound_ctx :: "list_view_layout list_view_context"

datatype widget_op =
    Splice int int "list_item list"
  | Resize dimension
  | Flush nat

definition layout_lid :: lid where
  "layout_lid = 1"

definition bind_model :: "view_model \<Rightarrow> bound_model" where
  "bind_model m =
     \<lparr>bound_items = m,
      bound_ctx = addEventHandler layout_lid (new_ListViewContext (new_ListViewLayout m))\<rparr>"

definition widget_step :: "bound_model \<Rightarrow> widget_op \<Rightarrow> bound_model option" where
  "widget_step b op =
     (case op of
        Splice start dc its \<Rightarrow>
          (case ViewModel_splice (bound_items b) start dc its of
             Inl err \<Rightarrow> None
           | Inr (m', fired) \<Rightarrow>
               Some \<lparr>bound_items = m',
                     bound_ctx = foldl (acceptViewModelEvent (\<lambda>w. w)) (bound_ctx b) fired\<rparr>)
      | Resize d \<Rightarrow> Some (b\<lparr>bound_ctx := acceptDimension (\<lambda>w. w) d (bound_ctx b)\<rparr>)
      | Flush fuel \<Rightarrow>
          (case flush (\<lambda>h. Layout_listener) (\<lambda>w. w) fuel (bound_ctx b) of
             None \<Rightarrow> None
           | Some c' \<Rightarrow> Some (b\<lparr>bound_ctx := c'\<rparr>)))"

fun run_ops :: "bound_model \<Rightarrow> widget_op list \<Rightarrow> bound_model option" where
  "run_ops b [] = Some b"
| "run_ops b (op # ops) =
     (case widget_step b op of None \<Rightarrow> None | Some b' \<Rightarrow> run_ops b' ops)"

text \<open>A splice is valid when its range lies inside the model (section 3 of the specification).\<close>

definition valid_op :: "bound_model \<Rightarrow> widget_op \<Rightarrow> bool" where
  "valid_op b op =
     (case op of
        Splice start dc its \<Rightarrow>
          0 \<le> start \<and> 0 \<le> dc \<and> start + dc \<le> int (length (items (bound_items b)))
      | Resize d \<Rightarrow> True
      | Flush fuel \<Rightarrow> True)"

fun valid_ops :: "bound_model \<Rightarrow> widget_op list \<Rightarrow> bool" where
  "valid_ops b [] = True"
| "valid_ops b (op # ops) =
     (valid_op b op \<and> (case widget_step b op of None \<Rightarrow> True | Some b' \<Rightarrow> valid_ops b' ops))"

section \<open>Notions used in the proofs about the index\<close>

definition index_after :: "prefix_sum_computer \<Rightarrow> list_view_event \<Rightarrow> prefix_sum_computer" where
  "index_after ld e = (case e of ItemsChanged ic \<Rightarrow> Layout_onItemsChanged ic ld | _ \<Rightarrow> ld)"

definition pending_index :: "list_view_layout list_view_context \<Rightarrow> prefix_sum_computer" where
  "pending_index c = foldl index_after (layoutData (world c)) (events c)"

definition is_scroll :: "list_view_event \<Rightarrow> bool" where
  "is_scroll e = (case e of Scroll se \<Rightarrow> True | _ \<Rightarrow> False)"

definition loud :: "list_view_event list \<Rightarrow> nat" where
  "loud es = length (filter (\<lambda>e. \<not> is_scroll e) es)"

definition mirrors :: "bound_model \<Rightarrow> bool" where
  "mirrors b = (pending_index (bound_ctx b) = getAllHeights (bound_items b)
              \<and> listeners (bound_ctx b) = [layout_lid])"

section \<open>Visibility of items\<close>

text \<open>
  Item \<open>i\<close> occupies the offsets from its top edge (included) to its bottom edge
  (excluded). An item is fully or partially visible in the viewport \<open>[tp, tp + h)\<close>
  when the two ranges meet. An item is rendered by a render data record when it is one of
  the \<open>tops.length\<close> consecutive items from \<open>startIndex\<close> on.
\<close>

definition item_top :: "prefix_sum_computer \<Rightarrow> int \<Rightarrow> int" where
  "item_top ld i = getAccumulatedValue ld (i - 1)"

definition item_bottom :: "prefix_sum_computer \<Rightarrow> int \<Rightarrow> int" where
  "item_bottom ld i = getAccumulatedValue ld i"

definition visible_item :: "prefix_sum_computer \<Rightarrow> int \<Rightarrow> int \<Rightarrow> int \<Rightarrow> bool" where
  "visible_item ld tp h i =
     (0 \<le> i \<and> i < getCount ld \<and> item_top ld i < tp + h \<and> tp < item_bottom ld i)"

definition rendered_item :: "render_data \<Rightarrow> int \<Rightarrow> bool" where
  "rendered_item rd i = (startIndex rd \<le> i \<and> i < startIndex rd + int (length (tops rd)))"

text \<open>The loop of \<open>getRenderData\<close> seen from the sizes that remain to be walked.\<close>

fun collect_tops :: "int list \<Rightarrow> int \<Rightarrow> int \<Rightarrow> int list" where
  "collect_tops [] offset2 off = []"
| "collect_tops (v # vs) offset2 off =
     (if off > offset2 then [] else off # collect_tops vs offset2 (off + v))"

section \<open>Notions used in the proofs about the dispatcher\<close>

text \<open>
  Two listeners for illustration: while the flush is in its "before" pass, listener 0
  removes itself and registers a listener 2; on a dimension change, listener 1 queues a
  scroll event and an items-changed event.
\<close>

definition demo_listeners :: "unit listener_table" where
  "demo_listeners h cb w =
     (case cb of
        OnBeforeEventsDispatch \<Rightarrow>
          (if h = 0 then (w, [RemoveEventHandler 0, AddEventHandler 2]) else (w, []))
      | OnDimensionChanged d \<Rightarrow>
          (if h = 1
           then (w, [EmitSoon (Scroll \<lparr>ev_vertical = True, ev_horizontal = False,
                                         ev_scrollTop = 0, ev_scrollLeft = 0\<rparr>),
                     EmitSoon (ItemsChanged \<lparr>versionId = 2, changedStart = 0, changed = [],
                                               insertStart = 0, inserted = [20],
                                               deleteStart = 0, deleteCnt = 0\<rparr>)])
           else (w, []))
      | OnItemsChanged e \<Rightarrow> (w, [])
      | OnAfterEventsDispatch \<Rightarrow> (w, []))"

text \<open>
  The flush as the specification words it, to be compared with \<open>flush\<close>.
  \<open>replay\<close> invokes the given callbacks one after the other and takes nothing from the
  queue, so that afterwards the queue holds, in emission order, the events queued at the
  start and then every event the callbacks have queued.
\<close>

definition replay ::
  "'w listener_table \<Rightarrow> ('w \<Rightarrow> 'w) \<Rightarrow> (lid \<times> callback) list \<Rightarrow> 'w list_view_context
     \<Rightarrow> 'w list_view_context" where
  "replay H onEventAdded calls c = foldl (\<lambda>c (h, cb). invoke H onEventAdded cb c h) c calls"

text \<open>
  The callbacks of a flush before its "after" pass when it dispatches the events \<open>D\<close>,
  and the events that have been queued by then.
\<close>

definition dispatch_calls :: "lid list \<Rightarrow> list_view_event list \<Rightarrow> (lid \<times> callback) list" where
  "dispatch_calls hs D =
     map (\<lambda>h. (h, OnBeforeEventsDispatch)) hs @ concat (map (event_calls hs) D)"

definition queued ::
  "'w listener_table \<Rightarrow> ('w \<Rightarrow> 'w) \<Rightarrow> 'w list_view_context \<Rightarrow> list_view_event list
     \<Rightarrow> list_view_event list" where
  "queued H onEventAdded c D = events (replay H onEventAdded (dispatch_calls (listeners c) D) c)"

text \<open>
  The events \<open>D\<close> are dispatched in emission order when each of them is the next event
  ever queued at the moment the events before it have been dispatched; the queue is
  drained by \<open>D\<close> when no other event has been queued by the end.
\<close>

definition emission_order ::
  "'w listener_table \<Rightarrow> ('w \<Rightarrow> 'w) \<Rightarrow> 'w list_view_context \<Rightarrow> list_view_event list \<Rightarrow> bool" where
  "emission_order H onEventAdded c D =
     list_all (\<lambda>j. take (Suc j) (queued H onEventAdded c (take j D)) = take (Suc j) D)
       [0..<length D]"

definition drained ::
  "'w listener_table \<Rightarrow> ('w \<Rightarrow> 'w) \<Rightarrow> 'w list_view_context \<Rightarrow> list_view_event list \<Rightarrow> bool" where
  "drained H onEventAdded c D = (queued H onEventAdded c D = D)"

text \<open>
  The context from whose queue the first \<open>k\<close> events have been taken, and the context
  that the specification's flush leaves when it dispatches \<open>D\<close>.
\<close>

definition dequeued :: "nat \<Rightarrow> 'w list_view_context \<Rightarrow> 'w list_view_context" where
  "dequeued k c = c\<lparr>events := drop k (events c)\<rparr>"

definition spec_flush ::
  "'w listener_table \<Rightarrow> ('w \<Rightarrow> 'w) \<Rightarrow> 'w list_view_context \<Rightarrow> list_view_event list
     \<Rightarrow> 'w list_view_context" where
  "spec_flush H onEventAdded c D =
     dequeued (length D) (replay H onEventAdded (flush_order (listeners c) D) c)"

text \<open>
  The state of the loop of a flush that has dispatched the events \<open>D\<close> so far.
\<close>

definition round_state ::
  "'w listener_table \<Rightarrow> ('w \<Rightarrow> 'w) \<Rightarrow> 'w list_view_context \<Rightarrow> list_view_event list
     \<Rightarrow> 'w list_view_context" where
  "round_state H onEventAdded c D =
     dequeued (length D) (replay H onEventAdded (dispatch_calls (listeners c) D) c)"

text \<open>
  The state of the \<open>while\<close> loop of \<open>flush\<close> after at most \<open>n\<close> rounds, also of a loop
  that does not end.
\<close>

fun loop_rounds ::
  "'w listener_table \<Rightarrow> ('w \<Rightarrow> 'w) \<Rightarrow> lid list \<Rightarrow> nat \<Rightarrow> 'w list_view_context
     \<Rightarrow> 'w list_view_context" where
  "loop_rounds H onEventAdded eventHandlers 0 c = c"
| "loop_rounds H onEventAdded eventHandlers (Suc n) c =
     (case events c of
        [] \<Rightarrow> c
      | e # es \<Rightarrow>
          loop_rounds H onEventAdded eventHandlers n
            (dispatch H onEventAdded eventHandlers e (c\<lparr>events := es\<rparr>)))"

text \<open>
  The callbacks of a listener table queue scroll events only: the events for which a
  flush calls no listener.
\<close>

definition queues_scrolls_only :: "'w listener_table \<Rightarrow> bool" where
  "queues_scrolls_only H = (\<forall>h cb w e. EmitSoon e \<in> set (snd (H h cb w)) \<longrightarrow> is_scroll e)"

section \<open>The window reconciler: the rendered window of ListView\<close>

text \<open>
  Reading an array element: \<open>None\<close> is JavaScript's \<open>undefined\<close> for an index outside
  the array.
\<close>

definition js_index :: "'a list \<Rightarrow> int \<Rightarrow> 'a option" where
  "js_index xs i = (if 0 \<le> i \<and> i < int (length xs) then Some (xs ! nat i) else None)"

text \<open>
  A \<open>ViewItem\<close>: its dirty flag and its node on the rendering surface (\<open>None\<close> is
  \<open>null\<close>). The model it points to is the same for all items and is left out.
\<close>

type_synonym node = nat

record view_item =
  isDirty :: bool
  domNode :: "node option"

definition createLine :: view_item where
  "createLine = \<lparr>isDirty = True, domNode = None\<rparr>"

text \<open>
  The rendered window of \<open>ListView\<close> with the part of the rendering surface it works on.

  Modelled from the spec: the rendering surface (section 6: create node, set top and
  height, insert markup fragments at a position, remove node) is the browser's DOM, which
  is not part of the sources. A node is an identity; \<open>children\<close> are the child nodes of
  \<open>_listItemsDomNode\<close> in document order; a node created from markup gets the next unused
  identity \<open>nextNode\<close>, one node for every line's markup; removing a node that is not a
  child leaves the children as they are (section 7, case c). \<open>lastScrollTime\<close> is the
  number in a node's \<open>last-scroll-time\<close> attribute, \<open>0\<close> without the attribute; scroll
  handling outside these sources writes it.

  \<open>modelRendered\<close> and \<open>laidOut\<close> are logs no code reads: the line numbers (with the
  top offset used) for which \<open>ViewModel.render\<close> was invoked through
  \<open>getLineOuterHTML\<close>, and the calls of \<open>layoutLine\<close> (node, line number, top offset).
\<close>

record window =
  renderedItems :: "view_item list"
  renderedItemsStart :: int
  scrollDomNode :: "node option"
  scrollDomNodeIsAbove :: bool
  children :: "node list"
  nextNode :: node
  lastScrollTime :: "node \<Rightarrow> int"
  modelRendered :: "(int \<times> int option) list"
  laidOut :: "(node \<times> int \<times> int option) list"

definition new_window :: window where
  "new_window =
     \<lparr>renderedItems = [], renderedItemsStart = 0, scrollDomNode = None,
      scrollDomNodeIsAbove = False, children = [], nextNode = 0,
      lastScrollTime = (\<lambda>n. 0), modelRendered = [], laidOut = []\<rparr>"

definition removeChild :: "node \<Rightarrow> window \<Rightarrow> window" where
  "removeChild n w = w\<lparr>children := remove1 n (children w)\<rparr>"

definition getScrollDomNodeTime :: "window \<Rightarrow> node \<Rightarrow> int" where
  "getScrollDomNodeTime w n = lastScrollTime w n"

text \<open>\<open>ViewItem.layoutLine\<close> on the node of the item: top and height are rewritten.\<close>

definition layoutLine :: "node \<Rightarrow> int \<Rightarrow> int option \<Rightarrow> window \<Rightarrow> window" where
  "layoutLine n lineNumber deltaTop w = w\<lparr>laidOut := laidOut w @ [(n, lineNumber, deltaTop)]\<rparr>"

text \<open>
  \<open>_renderUntouchedLines\<close>, the body of its loop first. \<open>_render\<close> passes bounds
  inside the array; for an index outside it the source would fail on \<open>undefined\<close>, the
  model skips it.
\<close>

definition layoutUntouchedLine :: "int list \<Rightarrow> int \<Rightarrow> window \<Rightarrow> int \<Rightarrow> window" where
  "layoutUntouchedLine deltaTop deltaLN w i =
     (let lineNumber = renderedItemsStart w + i
      in case js_index (renderedItems w) i of
           None \<Rightarrow> w
         | Some line \<Rightarrow>
             (case domNode line of
                None \<Rightarrow> w
              | Some n \<Rightarrow> layoutLine n lineNumber (js_index deltaTop (lineNumber - deltaLN)) w))"

definition renderUntouchedLines :: "int \<Rightarrow> int \<Rightarrow> int list \<Rightarrow> int \<Rightarrow> window \<Rightarrow> window" where
  "renderUntouchedLines startIdx endIdx deltaTop deltaLN w =
     foldl (layoutUntouchedLine deltaTop deltaLN) w [startIdx..endIdx]"

definition insertLinesBefore :: "int \<Rightarrow> int \<Rightarrow> window \<Rightarrow> window" where
  "insertLinesBefore fromLineNumber toLineNumber w =
     w\<lparr>renderedItems :=
         replicate (nat (toLineNumber - fromLineNumber + 1)) createLine @ renderedItems w\<rparr>"

definition insertLinesAfter :: "int \<Rightarrow> int \<Rightarrow> window \<Rightarrow> window" where
  "insertLinesAfter fromLineNumber toLineNumber w =
     w\<lparr>renderedItems :=
         renderedItems w @ replicate (nat (toLineNumber - fromLineNumber + 1)) createLine\<rparr>"

text \<open>
  \<open>_removeIfNotScrollDomNode\<close>: a node without scroll time is removed; otherwise the
  younger of it and the retained node is retained, and the other one is removed.
\<close>

definition removeIfNotScrollDomNode :: "bool \<Rightarrow> window \<Rightarrow> node \<Rightarrow> window" where
  "removeIfNotScrollDomNode isAbove w n =
     (let time = getScrollDomNodeTime w n
      in if time = 0 then removeChild n w
         else (case scrollDomNode w of
                 None \<Rightarrow> w\<lparr>scrollDomNode := Some n, scrollDomNodeIsAbove := isAbove\<rparr>
               | Some other \<Rightarrow>
                   if getScrollDomNodeTime w other > time then removeChild n w
                   else (removeChild other w)
                          \<lparr>scrollDomNode := Some n, scrollDomNodeIsAbove := isAbove\<rparr>))"

text \<open>The nodes of the lines that a removal loop visits, in order.\<close>

definition nodes_of :: "view_item list \<Rightarrow> node list" where
  "nodes_of lines = concat (map (\<lambda>line. case domNode line of None \<Rightarrow> [] | Some n \<Rightarrow> [n]) lines)"

definition removeLinesBefore :: "int \<Rightarrow> window \<Rightarrow> window" where
  "removeLinesBefore removeCount w =
     (let w1 = foldl (removeIfNotScrollDomNode True) w
                 (nodes_of (take (nat removeCount) (renderedItems w)))
      in w1\<lparr>renderedItems := drop (nat removeCount) (renderedItems w1)\<rparr>)"

definition removeLinesAfter :: "int \<Rightarrow> window \<Rightarrow> window" where
  "removeLinesAfter removeCount w =
     (let removeIndex = int (length (renderedItems w)) - removeCount;
          w1 = foldl (removeIfNotScrollDomNode False) w
                 (nodes_of (take (nat removeCount) (drop (nat removeIndex) (renderedItems w))))
      in w1\<lparr>renderedItems := take (nat removeIndex) (renderedItems w1)\<rparr>)"

text \<open>
  \<open>ListView.onItemsChanged\<close>, in its three parts. First the lines of the changed
  items that lie in the window are marked dirty (\<open>ViewItem.onChanged\<close>).
\<close>

definition markChanged :: "items_changed_event \<Rightarrow> window \<Rightarrow> window" where
  "markChanged e w =
     foldl (\<lambda>w i.
              (let changedIndex = changedStart e + int i;
                   myIndex = changedIndex - renderedItemsStart w
               in if myIndex < 0 then w
                  else if myIndex \<ge> int (length (renderedItems w)) then w
                  else w\<lparr>renderedItems :=
                         (renderedItems w)
                           [nat myIndex := (renderedItems w ! nat myIndex)\<lparr>isDirty := True\<rparr>]\<rparr>))
       w [0..<length (changed e)]"

text \<open>
  Then the deleted items: \<open>from\<close> and \<open>to\<close> are computed with the start of the
  window as it was, the start is adjusted, and the lines in the window that are deleted
  leave the surface and the array (\<open>splice(from, to - from + 1)\<close>, with
  \<open>0 \<le> from \<le> to < length\<close> there).
\<close>

definition removeDeleted :: "items_changed_event \<Rightarrow> window \<Rightarrow> window" where
  "removeDeleted e w =
     (let fromIdx = max (deleteStart e - renderedItemsStart w) 0;
          toIdx = min (deleteStart e + deleteCnt e - 1 - renderedItemsStart w)
                      (int (length (renderedItems w)) - 1);
          w1 = (if deleteStart e < renderedItemsStart w
                then (if deleteStart e + deleteCnt e - 1 < renderedItemsStart w
                      then w\<lparr>renderedItemsStart :=
                             renderedItemsStart w
                               - (deleteStart e + deleteCnt e - 1 - deleteStart e + 1)\<rparr>
                      else w\<lparr>renderedItemsStart := deleteStart e\<rparr>)
                else w)
      in if fromIdx \<le> toIdx
         then (let w2 = foldl (\<lambda>w n. removeChild n w) w1
                          (nodes_of (take (nat (toIdx - fromIdx + 1))
                                       (drop (nat fromIdx) (renderedItems w1))))
               in w2\<lparr>renderedItems :=
                      take (nat fromIdx) (renderedItems w2)
                        @ drop (nat (toIdx + 1)) (renderedItems w2)\<rparr>)
         else w1)"

text \<open>
  \<open>Array.splice(i, 0, x)\<close>: a negative position counts from the end, a position
  beyond the end is the end.
\<close>

definition js_splice_insert :: "'a list \<Rightarrow> int \<Rightarrow> 'a \<Rightarrow> 'a list" where
  "js_splice_insert xs i x =
     (let len = int (length xs);
          k = (if i < 0 then max (len + i) 0 else min i len)
      in take (nat k) xs @ [x] @ drop (nat k) xs)"

text \<open>
  \<open>pop\<close> of the last line, whose node, if any, leaves the surface. On an empty array
  the source would fail on \<open>undefined\<close>; \<open>onItemsChanged\<close> pops only lines it has
  lines for.
\<close>

definition popLine :: "window \<Rightarrow> window" where
  "popLine w =
     (case rev (renderedItems w) of
        [] \<Rightarrow> w
      | lastLine # earlier \<Rightarrow>
          (let w1 = w\<lparr>renderedItems := butlast (renderedItems w)\<rparr>
           in case domNode lastLine of None \<Rightarrow> w1 | Some n \<Rightarrow> removeChild n w1))"

text \<open>
  Last the inserted items: above the window they shift its start, below it they do
  nothing, inside it new lines are spliced in and as many lines are popped from the end.
\<close>

definition insertInserted :: "items_changed_event \<Rightarrow> window \<Rightarrow> window" where
  "insertInserted e w =
     (if insertStart e \<le> renderedItemsStart w
      then w\<lparr>renderedItemsStart :=
             renderedItemsStart w
               + (insertStart e + int (length (inserted e)) - 1 - insertStart e + 1)\<rparr>
      else if insertStart e \<ge> renderedItemsStart w + int (length (renderedItems w)) then w
      else (let insertFrom = min (insertStart e - renderedItemsStart w)
                                 (int (length (renderedItems w)) - 1);
                insertTo = min (insertStart e + int (length (inserted e)) - 1
                                  - renderedItemsStart w)
                               (int (length (renderedItems w)) - 1)
            in if insertFrom \<le> insertTo
               then (let w1 = foldl (\<lambda>w i. w\<lparr>renderedItems :=
                                               js_splice_insert (renderedItems w) i createLine\<rparr>)
                                w [insertFrom..insertTo];
                         insertCount = insertTo - insertFrom + 1
                     in foldl (\<lambda>w i. popLine w) w1 [0..<nat insertCount])
               else w))"

definition ListView_onItemsChanged :: "items_changed_event \<Rightarrow> window \<Rightarrow> window" where
  "ListView_onItemsChanged e w = insertInserted e (removeDeleted e (markChanged e w))"

text \<open>
  The loop of \<open>_finishRendering\<close> that hands the nodes just created to the new lines:
  from the last line to the first, \<open>currChild\<close> starting at the last child and moving to
  the previous sibling. Both lists are given last element first; a line is paired with its
  \<open>wasNew\<close> flag.
\<close>

fun setDomNodes_back :: "(view_item \<times> bool) list \<Rightarrow> node list \<Rightarrow> view_item list" where
  "setDomNodes_back [] cs = []"
| "setDomNodes_back ((line, wasNew) # ls) cs =
     (if wasNew
      then (case cs of
              [] \<Rightarrow> line\<lparr>domNode := None\<rparr> # setDomNodes_back ls []
            | c # cs' \<Rightarrow> line\<lparr>domNode := Some c\<rparr> # setDomNodes_back ls cs')
      else line # setDomNodes_back ls cs)"

text \<open>
  The loop of \<open>_finishRendering\<close> over the invalid lines: the next node of the detached
  container replaces the line's node among the children and becomes the line's node.
\<close>

fun replaceInvalid ::
  "(view_item \<times> bool) list \<Rightarrow> node list \<Rightarrow> node list \<Rightarrow> view_item list \<times> node list" where
  "replaceInvalid [] sources ch = ([], ch)"
| "replaceInvalid ((line, wasInvalid) # ls) sources ch =
     (if wasInvalid
      then (case sources of
              [] \<Rightarrow> (let (r, ch') = replaceInvalid ls [] ch in (line # r, ch'))
            | s # ss \<Rightarrow>
                (let ch1 = (case domNode line of
                              None \<Rightarrow> ch
                            | Some n \<Rightarrow> map (\<lambda>c. if c = n then s else c) ch);
                     (r, ch') = replaceInvalid ls ss ch1
                 in (line\<lparr>domNode := Some s\<rparr> # r, ch')))
      else (let (r, ch') = replaceInvalid ls sources ch in (line # r, ch')))"

text \<open>
  \<open>_finishRendering\<close>, in its three parts. The first loop asks every dirty line for
  its markup (\<open>getLineOuterHTML\<close> clears the flag and invokes \<open>ViewModel.render\<close>) and
  notes which lines were new (no node yet) and which invalid (a node with stale content).
\<close>

definition wasNew_flags :: "view_item list \<Rightarrow> bool list" where
  "wasNew_flags lines = map (\<lambda>line. isDirty line \<and> domNode line = None) lines"

definition wasInvalid_flags :: "view_item list \<Rightarrow> bool list" where
  "wasInvalid_flags lines = map (\<lambda>line. isDirty line \<and> domNode line \<noteq> None) lines"

definition collectLinesHTML :: "int list \<Rightarrow> window \<Rightarrow> window" where
  "collectLinesHTML deltaTop w =
     (let lines = renderedItems w;
          calls = map (\<lambda>i. (int i + renderedItemsStart w, js_index deltaTop (int i)))
                    (filter (\<lambda>i. isDirty (lines ! i)) [0..<length lines])
      in w\<lparr>renderedItems := map (\<lambda>line. line\<lparr>isDirty := False\<rparr>) lines,
            modelRendered := modelRendered w @ calls\<rparr>)"

text \<open>
  The part under \<open>hadNewLine\<close>: the markup of the new lines replaces the content of the
  container (\<open>innerHTML\<close>) or is inserted after its last child; then the nodes are handed
  out from the last child backwards.
\<close>

definition insertNewLines :: "bool \<Rightarrow> bool list \<Rightarrow> window \<Rightarrow> window" where
  "insertNewLines domNodeIsEmpty wasNew w =
     (let k = length (filter (\<lambda>b. b) wasNew)
      in if 0 < k
         then (let fresh = [nextNode w..<nextNode w + k];
                   ch = (if domNodeIsEmpty \<or> children w = [] then fresh else children w @ fresh)
               in w\<lparr>children := ch, nextNode := nextNode w + k,
                     renderedItems :=
                       rev (setDomNodes_back (rev (zip (renderedItems w) wasNew)) (rev ch))\<rparr>)
         else w)"

text \<open>
  The part under \<open>hadInvalidLine\<close>: the markup of the invalid lines is parsed in a
  detached container, whose nodes then replace the nodes of those lines.
\<close>

definition replaceInvalidLines :: "bool list \<Rightarrow> window \<Rightarrow> window" where
  "replaceInvalidLines wasInvalid w =
     (let m = length (filter (\<lambda>b. b) wasInvalid)
      in if 0 < m
         then (let sources = [nextNode w..<nextNode w + m];
                   (lines3, ch3) =
                      replaceInvalid (zip (renderedItems w) wasInvalid) sources (children w)
               in w\<lparr>renderedItems := lines3, children := ch3, nextNode := nextNode w + m\<rparr>)
         else w)"

definition finishRendering :: "bool \<Rightarrow> int list \<Rightarrow> window \<Rightarrow> window" where
  "finishRendering domNodeIsEmpty deltaTop w =
     (let wasNew = wasNew_flags (renderedItems w);
          wasInvalid = wasInvalid_flags (renderedItems w)
      in replaceInvalidLines wasInvalid
           (insertNewLines domNodeIsEmpty wasNew (collectLinesHTML deltaTop w)))"

text \<open>"Clean garbage above" and "Clean garbage below" in \<open>_render\<close>.\<close>

definition cleanGarbage :: "bool \<Rightarrow> window \<Rightarrow> window" where
  "cleanGarbage isAbove w =
     (case scrollDomNode w of
        None \<Rightarrow> w
      | Some n \<Rightarrow>
          if scrollDomNodeIsAbove w = isAbove then (removeChild n w)\<lparr>scrollDomNode := None\<rparr>
          else w)"

text \<open>
  \<open>_render\<close>, in the order of the source: the test for the path without overlap, the
  lines that stay, the leading edge, the trailing edge, \<open>_finishRendering\<close>. The render
  data and the clock reading \<open>now\<close> (\<open>new Date().getTime()\<close>) are arguments. The style
  of the container (its size and translation) is left out.
\<close>

definition canRemoveScrollDomNode :: "int \<Rightarrow> window \<Rightarrow> bool" where
  "canRemoveScrollDomNode now w =
     (case scrollDomNode w of
        None \<Rightarrow> True
      | Some n \<Rightarrow> \<not> (now - getScrollDomNodeTime w n < 1000))"

definition no_overlap :: "render_data \<Rightarrow> window \<Rightarrow> bool" where
  "no_overlap rd w =
     (let startItem = startIndex rd;
          endItem = startIndex rd + int (length (tops rd)) - 1
      in renderedItemsStart w + int (length (renderedItems w)) - 1 < startItem
         \<or> endItem < renderedItemsStart w)"

definition render_afresh :: "render_data \<Rightarrow> window \<Rightarrow> window" where
  "render_afresh rd w =
     (let startItem = startIndex rd;
          endItem = startIndex rd + int (length (tops rd)) - 1;
          w1 = w\<lparr>renderedItemsStart := startItem,
                 renderedItems := replicate (nat (endItem - startItem + 1)) createLine\<rparr>
      in (finishRendering True (tops rd) w1)\<lparr>scrollDomNode := None\<rparr>)"

definition render_leading_edge :: "render_data \<Rightarrow> window \<Rightarrow> window" where
  "render_leading_edge rd w =
     (let startItem = startIndex rd;
          endItem = startIndex rd + int (length (tops rd)) - 1;
          w1 = (if renderedItemsStart w > startItem
                then (let fromLineNumber = startItem;
                          toLineNumber = min endItem (renderedItemsStart w - 1)
                      in if fromLineNumber \<le> toLineNumber
                         then cleanGarbage True (insertLinesBefore fromLineNumber toLineNumber w)
                         else w)
                else if renderedItemsStart w < startItem
                then (let removeCnt = min (int (length (renderedItems w)))
                                        (startItem - renderedItemsStart w)
                      in if removeCnt > 0 then removeLinesBefore removeCnt w else w)
                else w)
      in w1\<lparr>renderedItemsStart := startItem\<rparr>)"

definition render_trailing_edge :: "render_data \<Rightarrow> window \<Rightarrow> window" where
  "render_trailing_edge rd w =
     (let endItem = startIndex rd + int (length (tops rd)) - 1
      in if renderedItemsStart w + int (length (renderedItems w)) - 1 < endItem
         then (let fromLineNumber = renderedItemsStart w + int (length (renderedItems w));
                   toLineNumber = endItem
               in if fromLineNumber \<le> toLineNumber
                  then cleanGarbage False (insertLinesAfter fromLineNumber toLineNumber w)
                  else w)
         else if renderedItemsStart w + int (length (renderedItems w)) - 1 > endItem
         then (let fromLineNumber = max 0 (endItem - renderedItemsStart w + 1);
                   toLineNumber = int (length (renderedItems w)) - 1;
                   removeCnt = toLineNumber - fromLineNumber + 1
               in if removeCnt > 0 then removeLinesAfter removeCnt w else w)
         else w)"

definition render :: "render_data \<Rightarrow> int \<Rightarrow> window \<Rightarrow> window" where
  "render rd now w =
     (let startItem = startIndex rd;
          endItem = startIndex rd + int (length (tops rd)) - 1
      in if canRemoveScrollDomNode now w \<and> no_overlap rd w
         then render_afresh rd w
         else (let w1 = renderUntouchedLines
                          (max (startItem - renderedItemsStart w) 0)
                          (min (endItem - renderedItemsStart w)
                               (int (length (renderedItems w)) - 1))
                          (tops rd) startItem w;
                   w2 = render_leading_edge rd w1;
                   w3 = render_trailing_edge rd w2
               in finishRendering False (tops rd) w3))"

section \<open>The view: scheduling of the rendering callback and disposal\<close>

text \<open>
  The fields of \<open>ListView\<close> and what it owns: the handle of the requested rendering
  callback (\<open>None\<close> is \<open>null\<close>), the layout engine and the rendered window.

  Modelled from the spec: \<open>runAtThisOrScheduleAtNextAnimationFrame\<close> of
  \<open>vs/base/browser/dom\<close> is not among the sources. By section 5 of the specification
  it is the external animation-frame scheduler: a callback requested from it is outstanding
  until it fires or is cancelled through the handle the request returned.
  \<open>scheduledFrames\<close> are the handles of the outstanding callbacks of this view, in the
  order requested; a handle is a number and \<open>nextFrame\<close> is the next unused one.
\<close>

record list_view =
  renderAnimationFrame :: "nat option"
  scheduledFrames :: "nat list"
  nextFrame :: nat
  view_layout :: list_view_layout
  view_window :: window

definition view_lid :: lid where
  "view_lid = 0"

definition scheduleRender :: "list_view \<Rightarrow> list_view" where
  "scheduleRender v =
     (if renderAnimationFrame v = None
      then v\<lparr>renderAnimationFrame := Some (nextFrame v),
             scheduledFrames := scheduledFrames v @ [nextFrame v],
             nextFrame := nextFrame v + 1\<rparr>
      else v)"

text \<open>
  The constructor: the context gets \<open>_scheduleRender\<close> as its \<open>onEventAdded\<close>; the view
  and then the layout engine register as listeners; the dimension is queued; a rendering
  callback is requested.
\<close>

definition new_ListView :: "dimension \<Rightarrow> view_model \<Rightarrow> list_view list_view_context" where
  "new_ListView dim m =
     (let v = \<lparr>renderAnimationFrame = None, scheduledFrames = [], nextFrame = 0,
               view_layout = new_ListViewLayout m, view_window = new_window\<rparr>;
          c1 = addEventHandler view_lid (new_ListViewContext v);
          c2 = addEventHandler layout_lid c1;
          c3 = acceptDimension scheduleRender dim c2
      in c3\<lparr>world := scheduleRender (world c3)\<rparr>)"

definition flushAccumulatedAndRenderNow ::
  "list_view listener_table \<Rightarrow> nat \<Rightarrow> int \<Rightarrow> list_view list_view_context
     \<Rightarrow> list_view list_view_context option" where
  "flushAccumulatedAndRenderNow H fuel now c =
     (case flush H scheduleRender fuel c of
        None \<Rightarrow> None
      | Some c1 \<Rightarrow>
          Some (c1\<lparr>world := (world c1)
                  \<lparr>view_window := render (getRenderData (view_layout (world c1))) now
                                    (view_window (world c1))\<rparr>\<rparr>))"

text \<open>
  The scheduler fires the outstanding callback with handle \<open>f\<close>: the callback is no
  longer outstanding, and its body clears the field, flushes and renders. \<open>None\<close> is a
  call that does not happen (\<open>f\<close> is not outstanding) or does not return.
\<close>

definition animationFrame ::
  "list_view listener_table \<Rightarrow> nat \<Rightarrow> int \<Rightarrow> nat \<Rightarrow> list_view list_view_context
     \<Rightarrow> list_view list_view_context option" where
  "animationFrame H fuel now f c =
     (if f \<in> set (scheduledFrames (world c))
      then flushAccumulatedAndRenderNow H fuel now
             (c\<lparr>world := (world c)\<lparr>scheduledFrames := remove1 f (scheduledFrames (world c)),
                                     renderAnimationFrame := None\<rparr>\<rparr>)
      else None)"

text \<open>
  \<open>ListView.dispose\<close>: the handle, if any, is disposed, which cancels the callback, and
  the field is cleared; \<open>super.dispose()\<close> then disposes the layout engine, which removes
  itself from the listeners.
\<close>

definition ListView_dispose :: "list_view list_view_context \<Rightarrow> list_view list_view_context" where
  "ListView_dispose c =
     (let v = world c;
          v1 = (case renderAnimationFrame v of
                  None \<Rightarrow> v
                | Some f \<Rightarrow> v\<lparr>scheduledFrames := remove1 f (scheduledFrames v),
                               renderAnimationFrame := None\<rparr>)
      in removeEventHandler layout_lid (c\<lparr>world := v1\<rparr>))"

text \<open>
  What happens to a view from outside: an event is queued (a resize through
  \<open>acceptDimension\<close>, a mutation through \<open>acceptViewModelEvent\<close>); the scrollbar sets the
  scroll position of the \<open>Scrollable\<close>, whose scroll events the layout engine queues;
  the scroll handling stamps a node with its \<open>last-scroll-time\<close>; the scheduler fires a
  callback with a fuel bound and the clock reading; the view is disposed.
\<close>

datatype view_action =
    Emit list_view_event
  | ScrollTo int
  | Wheel node int
  | AnimationFrame nat int nat
  | Dispose

definition scrollTo :: "int \<Rightarrow> list_view list_view_context \<Rightarrow> list_view list_view_context" where
  "scrollTo st c =
     (let l = view_layout (world c);
          (s1, evs) = setScrollTop st (layout_scrollable l);
          c1 = c\<lparr>world := (world c)\<lparr>view_layout := l\<lparr>layout_scrollable := s1\<rparr>\<rparr>\<rparr>
      in foldl (\<lambda>c se. emitSoon scheduleRender (Scroll se) c) c1 evs)"

definition wheel :: "node \<Rightarrow> int \<Rightarrow> list_view list_view_context \<Rightarrow> list_view list_view_context" where
  "wheel n t c =
     c\<lparr>world := (world c)
          \<lparr>view_window := (view_window (world c))
              \<lparr>lastScrollTime := (lastScrollTime (view_window (world c)))(n := t)\<rparr>\<rparr>\<rparr>"

definition view_step ::
  "list_view listener_table \<Rightarrow> list_view list_view_context \<Rightarrow> view_action
     \<Rightarrow> list_view list_view_context option" where
  "view_step H c a =
     (case a of
        Emit e \<Rightarrow> Some (emitSoon scheduleRender e c)
      | ScrollTo st \<Rightarrow> Some (scrollTo st c)
      | Wheel n t \<Rightarrow> Some (wheel n t c)
      | AnimationFrame fuel now f \<Rightarrow> animationFrame H fuel now f c
      | Dispose \<Rightarrow> Some (ListView_dispose c))"

fun run_view ::
  "list_view listener_table \<Rightarrow> list_view list_view_context \<Rightarrow> view_action list
     \<Rightarrow> list_view list_view_context option" where
  "run_view H c [] = Some c"
| "run_view H c (a # as) =
     (case view_step H c a of None \<Rightarrow> None | Some c' \<Rightarrow> run_view H c' as)"

text \<open>
  The callbacks of the listeners never write the field \<open>_renderAnimationFrame\<close> and never
  talk to the scheduler: only \<open>_scheduleRender\<close>, the callback it requests and \<open>dispose\<close>
  do.
\<close>

definition keeps_schedule :: "list_view listener_table \<Rightarrow> bool" where
  "keeps_schedule H =
     (\<forall>h cb v. renderAnimationFrame (fst (H h cb v)) = renderAnimationFrame v
             \<and> scheduledFrames (fst (H h cb v)) = scheduledFrames v)"

text \<open>The outstanding callbacks are exactly the one the field holds, if any.\<close>

definition one_pending :: "list_view \<Rightarrow> bool" where
  "one_pending v =
     (scheduledFrames v = (case renderAnimationFrame v of None \<Rightarrow> [] | Some f \<Rightarrow> [f]))"

text \<open>
  The callbacks of \<open>ListView\<close> as a listener: \<open>onDimensionChanged\<close> only sets the
  style of the scrollable node, which is left out; \<open>onItemsChanged\<close> works on the
  rendered window; the other two are the empty ones of \<open>ListViewListener\<close>.
\<close>

definition ListView_listener :: "callback \<Rightarrow> window \<Rightarrow> window \<times> ctx_call list" where
  "ListView_listener cb w =
     (case cb of
        OnBeforeEventsDispatch \<Rightarrow> (w, [])
      | OnDimensionChanged d \<Rightarrow> (w, [])
      | OnItemsChanged e \<Rightarrow> (ListView_onItemsChanged e w, [])
      | OnAfterEventsDispatch \<Rightarrow> (w, []))"

text \<open>
  The two listeners that the constructor registers with the view's context: the view
  itself and its layout engine.
\<close>

definition ListView_listeners :: "list_view listener_table" where
  "ListView_listeners h cb v =
     (if h = view_lid
      then (let (w, calls) = ListView_listener cb (view_window v)
            in (v\<lparr>view_window := w\<rparr>, calls))
      else if h = layout_lid
      then (let (l, calls) = Layout_listener cb (view_layout v) in (v\<lparr>view_layout := l\<rparr>, calls))
      else (v, []))"

text \<open>
  A view for illustration: five items of height 100 in a viewport of height 200. The
  first callback renders items 0 to 2; the pointer is over the node of item 0 while the
  user scrolls to offset 100; the second callback evicts that node at the leading edge; a
  further scroll requests a third callback.
\<close>

definition five_items :: view_model where
  "five_items =
     new_view_model
       [\<lparr>item_height = 100, item_content = ''a''\<rparr>, \<lparr>item_height = 100, item_content = ''b''\<rparr>,
        \<lparr>item_height = 100, item_content = ''c''\<rparr>, \<lparr>item_height = 100, item_content = ''d''\<rparr>,
        \<lparr>item_height = 100, item_content = ''e''\<rparr>]"

definition scrolled_view :: "list_view list_view_context option" where
  "scrolled_view =
     run_view ListView_listeners (new_ListView \<lparr>dim_width = 500, dim_height = 200\<rparr> five_items)
       [AnimationFrame 5 0 0, Wheel 0 5000, ScrollTo 100, AnimationFrame 5 5100 1, ScrollTo 150]"

section \<open>Notions used in the proofs about the render pass\<close>

text \<open>The line of a node created in the pass: clean, with that node.\<close>

definition fresh_line :: "node \<Rightarrow> view_item" where
  "fresh_line n = \<lparr>isDirty = False, domNode = Some n\<rparr>"

text \<open>
  What the eviction of the nodes \<open>ns\<close> from the window \<open>w\<close> through the retention
  path leaves in the window \<open>w'\<close>: of the nodes \<open>ns\<close> and the node retained before,
  only the node retained afterwards is still a child, and all other children are; the node
  retained afterwards is the one retained before or one of \<open>ns\<close> with a scroll stamp,
  and no node of \<open>ns\<close> with a scroll stamp has a later stamp.
\<close>

definition evicts :: "node list \<Rightarrow> window \<Rightarrow> window \<Rightarrow> bool" where
  "evicts ns w w' =
     (children w'
        = filter (\<lambda>c. (c \<notin> set ns \<and> Some c \<noteq> scrollDomNode w) \<or> scrollDomNode w' = Some c)
            (children w)
      \<and> (\<forall>m. scrollDomNode w' = Some m \<longrightarrow>
             (scrollDomNode w = Some m \<or> (m \<in> set ns \<and> lastScrollTime w m \<noteq> 0))
           \<and> (\<forall>n \<in> set ns. lastScrollTime w n \<noteq> 0 \<longrightarrow> lastScrollTime w n \<le> lastScrollTime w m))
      \<and> lastScrollTime w' = lastScrollTime w)"

text \<open>
  A window for illustration: items 1 and 2 are rendered with the nodes 1 and 2; node 0,
  evicted earlier at the leading edge, is retained; the scroll handling has stamped node 0
  at time 5000 and node 1 at time 5200. The render data asks for the items 500 and 501.
\<close>

definition grace_window :: window where
  "grace_window =
     \<lparr>renderedItems = [\<lparr>isDirty = False, domNode = Some 1\<rparr>,
                       \<lparr>isDirty = False, domNode = Some 2\<rparr>],
      renderedItemsStart = 1, scrollDomNode = Some 0, scrollDomNodeIsAbove = True,
      children = [0, 1, 2], nextNode = 3,
      lastScrollTime = (\<lambda>n. if n = 0 then 5000 else if n = 1 then 5200 else 0),
      modelRendered = [], laidOut = []\<rparr>"

definition far_render_data :: render_data where
  "far_render_data =
     \<lparr>startIndex = 500, tops = [10000, 10020], rd_width = 500, rd_height = 30,
      rd_scrollLeft = 0, rd_scrollTop = 10000, rd_scrollWidth = 500, rd_scrollHeight = 20000\<rparr>"

text \<open>
  A window for illustration: the items 1 to 3 are rendered with the nodes 5, 2 and 3, and
  an items-changed event has marked item 2 as changed. The render data asks for the items
  2 to 4.
\<close>

definition stale_window :: window where
  "stale_window =
     \<lparr>renderedItems = [\<lparr>isDirty = False, domNode = Some 5\<rparr>,
                       \<lparr>isDirty = True, domNode = Some 2\<rparr>,
                       \<lparr>isDirty = False, domNode = Some 3\<rparr>],
      renderedItemsStart = 1, scrollDomNode = None, scrollDomNodeIsAbove = False,
      children = [2, 3, 5], nextNode = 6, lastScrollTime = (\<lambda>n. 0),
      modelRendered = [], laidOut = []\<rparr>"

definition next_render_data :: render_data where
  "next_render_data =
     \<lparr>startIndex = 2, tops = [40, 60, 80], rd_width = 500, rd_height = 50,
      rd_scrollLeft = 0, rd_scrollTop = 45, rd_scrollWidth = 500, rd_scrollHeight = 2000\<rparr>"

section \<open>Facts about slices\<close>

lemma js_slice_prefix: "0 \<le> e \<Longrightarrow> js_slice xs 0 e = take (nat e) xs"
  by (simp add: js_slice_def Let_def min_def)

lemma js_slice_from_suffix: "0 \<le> b \<Longrightarrow> js_slice_from xs b = drop (nat b) xs"
  by (simp add: js_slice_from_def js_slice_def Let_def min_def)

lemma js_slice_prefix_clamped:
  "0 \<le> e \<Longrightarrow> js_slice xs 0 e = take (nat (min e (int (length xs)))) xs"
  by (simp add: js_slice_prefix min_def)

lemma js_slice_from_clamped:
  "0 \<le> b \<Longrightarrow> js_slice_from xs b = drop (nat (min b (int (length xs)))) xs"
  by (simp add: js_slice_from_suffix min_def)

section \<open>The decomposition law\<close>

lemma changed_take:
  "0 \<le> vm_deleteCnt e \<Longrightarrow>
   changed (ListViewItemsChangedEvent e) = take (nat (vm_deleteCnt e)) (vm_inserted e)"
  by (auto simp add: ListViewItemsChangedEvent_def Let_def js_slice_prefix min_def)

lemma inserted_drop:
  "0 \<le> vm_deleteCnt e \<Longrightarrow>
   inserted (ListViewItemsChangedEvent e) = drop (nat (vm_deleteCnt e)) (vm_inserted e)"
  by (auto simp add: ListViewItemsChangedEvent_def Let_def js_slice_prefix js_slice_from_suffix min_def)

text \<open>
  Claim C1. For every change event \<open>(start, deleteCnt, inserted)\<close> of the data model
  (a delete count is never negative), the decomposition built by the constructor of
  \<open>ListViewItemsChangedEvent\<close> has \<open>changedStart = start\<close>, \<open>|changed| = min(deleteCnt,
  |inserted|)\<close>, \<open>insertStart = deleteStart = start + |changed|\<close>, the changed run
  followed by the remaining inserted run is the original inserted sequence, and the
  changed length plus the remaining delete count is the original delete count; the
  version is carried over unchanged.
\<close>

theorem decomposition_law:
  assumes "0 \<le> vm_deleteCnt e"
  shows "changedStart (ListViewItemsChangedEvent e) = vm_start e
       \<and> int (length (changed (ListViewItemsChangedEvent e)))
           = min (vm_deleteCnt e) (int (length (vm_inserted e)))
       \<and> insertStart (ListViewItemsChangedEvent e)
           = vm_start e + int (length (changed (ListViewItemsChangedEvent e)))
       \<and> deleteStart (ListViewItemsChangedEvent e)
           = vm_start e + int (length (changed (ListViewItemsChangedEvent e)))
       \<and> length (changed (ListViewItemsChangedEvent e))
           + length (inserted (ListViewItemsChangedEvent e)) = length (vm_inserted e)
       \<and> int (length (changed (ListViewItemsChangedEvent e)))
           + deleteCnt (ListViewItemsChangedEvent e) = vm_deleteCnt e
       \<and> changed (ListViewItemsChangedEvent e) @ inserted (ListViewItemsChangedEvent e)
           = vm_inserted e
       \<and> versionId (ListViewItemsChangedEvent e) = vm_versionId e"
proof -
  let ?d = "ListViewItemsChangedEvent e"
  have ch: "changed ?d = take (nat (vm_deleteCnt e)) (vm_inserted e)"
    using assms by (rule changed_take)
  have ins: "inserted ?d = drop (nat (vm_deleteCnt e)) (vm_inserted e)"
    using assms by (rule inserted_drop)
  have len: "int (length (changed ?d)) = min (vm_deleteCnt e) (int (length (vm_inserted e)))"
    using assms by (auto simp add: ch min_def)
  have starts: "changedStart ?d = vm_start e"
    "insertStart ?d = vm_start e + int (length (changed ?d))"
    "deleteStart ?d = vm_start e + int (length (changed ?d))"
    "deleteCnt ?d = vm_deleteCnt e - int (length (changed ?d))"
    "versionId ?d = vm_versionId e"
    by (simp_all add: ListViewItemsChangedEvent_def Let_def)
  have app: "changed ?d @ inserted ?d = vm_inserted e"
    by (simp add: ch ins)
  have sum: "length (changed ?d) + length (inserted ?d) = length (vm_inserted e)"
    using arg_cong [OF app, of length] by simp
  show ?thesis
    using len starts app sum by simp
qed

theorem decomposition_law_witness:
  "(0::int) \<le> 2
   \<and> changedStart (ListViewItemsChangedEvent
        \<lparr>vm_versionId = 2, vm_start = 5, vm_deleteCnt = 2, vm_inserted = [20, 30, 25]\<rparr>) = 5
   \<and> changed (ListViewItemsChangedEvent
        \<lparr>vm_versionId = 2, vm_start = 5, vm_deleteCnt = 2, vm_inserted = [20, 30, 25]\<rparr>) = [20, 30]
   \<and> insertStart (ListViewItemsChangedEvent
        \<lparr>vm_versionId = 2, vm_start = 5, vm_deleteCnt = 2, vm_inserted = [20, 30, 25]\<rparr>) = 7
   \<and> deleteCnt (ListViewItemsChangedEvent
        \<lparr>vm_versionId = 2, vm_start = 5, vm_deleteCnt = 2, vm_inserted = [20, 30, 25]\<rparr>) = 0"
  using decomposition_law
    [of "\<lparr>vm_versionId = 2, vm_start = 5, vm_deleteCnt = 2, vm_inserted = [20, 30, 25]\<rparr>"]
  by (simp add: ListViewItemsChangedEvent_def Let_def js_slice_def js_slice_from_def)

section \<open>Splicing the model\<close>

lemma splice_returns:
  "ViewModel_splice m start dc new_items =
     Inr (\<lparr>items = js_slice (items m) 0 start @ toMyItems new_items
                     @ js_slice_from (items m) (start + dc),
            model_versionId = model_versionId m + 1\<rparr>,
          [\<lparr>vm_versionId = model_versionId m + 1, vm_start = start, vm_deleteCnt = dc,
            vm_inserted = map item_height new_items\<rparr>])"
  by (simp add: ViewModel_splice_def Let_def toMyItems_def comp_def)

text \<open>
  Claim C10. For every non-negative \<open>start\<close> and \<open>deleteCnt\<close>, also when \<open>start\<close> or
  \<open>start + deleteCnt\<close> exceeds the length, \<open>ViewModel.splice\<close> returns normally: the new
  sequence is the old one up to \<open>min(start, length)\<close>, then the new entries, then the old
  one from \<open>min(start + deleteCnt, length)\<close> on; the version is one more than before; and
  exactly one change event is fired, carrying the new version, the raw \<open>start\<close> and
  \<open>deleteCnt\<close>, and the heights of the new entries.
\<close>

theorem splice_clamps_and_never_throws:
  assumes "0 \<le> start" and "0 \<le> dc"
  shows "ViewModel_splice m start dc new_items =
     Inr (\<lparr>items = take (nat (min start (int (length (items m))))) (items m)
                     @ toMyItems new_items
                     @ drop (nat (min (start + dc) (int (length (items m))))) (items m),
            model_versionId = model_versionId m + 1\<rparr>,
          [\<lparr>vm_versionId = model_versionId m + 1, vm_start = start, vm_deleteCnt = dc,
            vm_inserted = map item_height new_items\<rparr>])"
proof -
  have b: "js_slice (items m) 0 start = take (nat (min start (int (length (items m))))) (items m)"
    using assms(1) by (rule js_slice_prefix_clamped)
  have "0 \<le> start + dc"
    using assms by simp
  then have a: "js_slice_from (items m) (start + dc)
      = drop (nat (min (start + dc) (int (length (items m))))) (items m)"
    by (rule js_slice_from_clamped)
  show ?thesis
    unfolding splice_returns b a ..
qed

theorem splice_clamps_and_never_throws_witness:
  "(0::int) \<le> 5 \<and> (0::int) \<le> 3
   \<and> ViewModel_splice \<lparr>items = [\<lparr>cachedHeight = 20, actual = \<lparr>item_height = 20, item_content = ''a''\<rparr>\<rparr>],
             model_versionId = 1\<rparr>
        5 3 [\<lparr>item_height = 30, item_content = ''b''\<rparr>]
     = Inr (\<lparr>items = [\<lparr>cachedHeight = 20, actual = \<lparr>item_height = 20, item_content = ''a''\<rparr>\<rparr>,
                      \<lparr>cachedHeight = 30, actual = \<lparr>item_height = 30, item_content = ''b''\<rparr>\<rparr>],
              model_versionId = 2\<rparr>,
            [\<lparr>vm_versionId = 2, vm_start = 5, vm_deleteCnt = 3, vm_inserted = [30]\<rparr>])"
  using splice_clamps_and_never_throws
    [of 5 3 "\<lparr>items = [\<lparr>cachedHeight = 20, actual = \<lparr>item_height = 20, item_content = ''a''\<rparr>\<rparr>],
              model_versionId = 1\<rparr>" "[\<lparr>item_height = 30, item_content = ''b''\<rparr>]"]
  by (simp add: toMyItems_def)

text \<open>
  Claim C2, as stated, fails: a splice whose range lies outside the model does not raise.
  On a model holding one item, \<open>splice(5, 3, [b])\<close> returns normally, appends \<open>b\<close>,
  moves the version from 1 to 2 and fires one change event.
\<close>

theorem splice_out_of_range_counterexample:
  "ViewModel_splice \<lparr>items = [\<lparr>cachedHeight = 20, actual = \<lparr>item_height = 20, item_content = ''a''\<rparr>\<rparr>],
           model_versionId = 1\<rparr>
      5 3 [\<lparr>item_height = 30, item_content = ''b''\<rparr>]
   \<noteq> Inl RangeError
   \<and> (case ViewModel_splice \<lparr>items = [\<lparr>cachedHeight = 20, actual = \<lparr>item_height = 20, item_content = ''a''\<rparr>\<rparr>],
                   model_versionId = 1\<rparr>
              5 3 [\<lparr>item_height = 30, item_content = ''b''\<rparr>] of
         Inl err \<Rightarrow> False
       | Inr (m', fired) \<Rightarrow>
           length (items m') = 2 \<and> model_versionId m' = 2 \<and> length fired = 1)"
  by (simp add: ViewModel_splice_def Let_def toMyItems_def js_slice_def js_slice_from_def)

text \<open>
  Claim C2, amended. For every call \<open>splice(start, deleteCount, newItems)\<close> on a model of
  length \<open>L\<close> with \<open>start < 0\<close>, \<open>start > L\<close> or \<open>start + deleteCount > L\<close>, the call does
  not raise: it returns normally, the version is incremented by one, exactly one change
  event is fired, carrying the new version and the raw arguments, and the item sequence
  becomes \<open>slice(0, start)\<close>, the new entries, \<open>slice(start + deleteCount)\<close>, with the
  bounds clamped as \<open>Array.slice\<close> does. So a start beyond the end appends the new entries,
  and a range that runs past the end deletes everything from \<open>start\<close> on.
\<close>

theorem splice_out_of_range_returns:
  assumes "start < 0 \<or> start > int (length (items m)) \<or> start + dc > int (length (items m))"
  shows "\<exists>m' ev. ViewModel_splice m start dc new_items = Inr (m', [ev])
       \<and> model_versionId m' = model_versionId m + 1
       \<and> items m' = js_slice (items m) 0 start @ toMyItems new_items
                       @ js_slice_from (items m) (start + dc)
       \<and> (int (length (items m)) < start \<and> 0 \<le> dc \<longrightarrow>
            items m' = items m @ toMyItems new_items)
       \<and> (0 \<le> start \<and> start \<le> int (length (items m)) \<and> int (length (items m)) < start + dc \<longrightarrow>
            items m' = take (nat start) (items m) @ toMyItems new_items)
       \<and> vm_versionId ev = model_versionId m + 1
       \<and> vm_start ev = start \<and> vm_deleteCnt ev = dc
       \<and> vm_inserted ev = map item_height new_items"
proof -
  have beyond: "js_slice (items m) 0 start @ toMyItems new_items
        @ js_slice_from (items m) (start + dc) = items m @ toMyItems new_items"
    if "int (length (items m)) < start" "0 \<le> dc"
    using that by (simp add: js_slice_prefix js_slice_from_suffix)
  have past: "js_slice (items m) 0 start @ toMyItems new_items
        @ js_slice_from (items m) (start + dc) = take (nat start) (items m) @ toMyItems new_items"
    if "0 \<le> start" "int (length (items m)) < start + dc"
    using that by (simp add: js_slice_prefix js_slice_from_suffix)
  have b: "int (length (items m)) < start \<and> 0 \<le> dc \<longrightarrow>
      js_slice (items m) 0 start @ toMyItems new_items @ js_slice_from (items m) (start + dc)
        = items m @ toMyItems new_items"
    using beyond by blast
  have p: "0 \<le> start \<and> start \<le> int (length (items m)) \<and> int (length (items m)) < start + dc
      \<longrightarrow> js_slice (items m) 0 start @ toMyItems new_items
            @ js_slice_from (items m) (start + dc)
          = take (nat start) (items m) @ toMyItems new_items"
    using past by blast
  show ?thesis
    using b p by (simp add: splice_returns)
qed

theorem splice_out_of_range_returns_witness:
  "((5::int) < 0 \<or> 5 > int (length (items (new_view_model [])))
      \<or> 5 + 3 > int (length (items (new_view_model []))))
   \<and> (\<exists>m' ev. ViewModel_splice (new_view_model []) 5 3 [\<lparr>item_height = 30, item_content = ''b''\<rparr>]
                 = Inr (m', [ev])
        \<and> model_versionId m' = 2
        \<and> items m' = [\<lparr>cachedHeight = 30, actual = \<lparr>item_height = 30, item_content = ''b''\<rparr>\<rparr>]
        \<and> vm_start ev = 5 \<and> vm_deleteCnt ev = 3)"
  using splice_out_of_range_returns
    [of 5 "new_view_model []" 3 "[\<lparr>item_height = 30, item_content = ''b''\<rparr>]"]
  by (auto simp add: new_view_model_def toMyItems_def)

section \<open>The offset index mirrors the model\<close>

lemma take_after_prefix: "length p = n \<Longrightarrow> take n (p @ r) = p"
  by simp

lemma drop_after_prefix: "length p = n \<Longrightarrow> drop (n + j) (p @ r) = drop j r"
  by simp

lemma onItemsChanged_valid:
  assumes "0 \<le> s" "0 \<le> dc" "s + dc \<le> int (length ld)"
  shows "Layout_onItemsChanged
           (ListViewItemsChangedEvent \<lparr>vm_versionId = v, vm_start = s, vm_deleteCnt = dc, vm_inserted = ins\<rparr>) ld
         = take (nat s) ld @ ins @ drop (nat (s + dc)) ld"
proof -
  let ?e = "\<lparr>vm_versionId = v, vm_start = s, vm_deleteCnt = dc, vm_inserted = ins\<rparr>"
  let ?d = "ListViewItemsChangedEvent ?e"
  have ch: "changed ?d = take (nat dc) ins"
    using changed_take [of ?e] assms by simp
  have ins: "inserted ?d = drop (nat dc) ins"
    using inserted_drop [of ?e] assms by simp
  define k where "k = length (changed ?d)"
  define p where "p = take (nat s) ld @ changed ?d"
  have k: "k = min (nat dc) (length ins)" by (simp add: k_def ch)
  have st: "changedStart ?d = s" "insertStart ?d = s + int k" "deleteStart ?d = s + int k"
    "deleteCnt ?d = dc - int k"
    by (simp_all add: ListViewItemsChangedEvent_def Let_def k_def)
  have ns: "nat (s + int k) = nat s + k" using assms by (simp add: nat_add_distrib)
  have kd: "k \<le> nat dc" by (simp add: k)
  have sl: "nat s + nat dc \<le> length ld" using assms by linarith
  have nd: "nat (dc - int k) = nat dc - k" by linarith
  have nsd: "nat (s + dc) = nat s + nat dc" using assms by (simp add: nat_add_distrib)
  have len_p: "length p = nat s + k"
    using sl by (simp add: p_def k_def min_def)
  have l1: "changeValues (changedStart ?d) (changed ?d) ld = p @ drop (nat s + k) ld"
    by (simp add: changeValues_def st k_def p_def)
  have "drop (nat s + k + (nat dc - k)) (p @ drop (nat s + k) ld)
          = drop (nat dc - k) (drop (nat s + k) ld)"
    using len_p by (rule drop_after_prefix)
  also have "\<dots> = drop (nat s + nat dc) ld"
    using kd by (simp add: add.commute)
  finally have dr: "drop (nat s + k + (nat dc - k)) (p @ drop (nat s + k) ld)
          = drop (nat s + nat dc) ld" .
  have tk: "take (nat s + k) (p @ r) = p" for r
    using len_p by (rule take_after_prefix)
  have l2: "removeValues (deleteStart ?d) (deleteCnt ?d) (p @ drop (nat s + k) ld)
          = p @ drop (nat s + nat dc) ld"
    unfolding removeValues_def st ns nd tk dr ..
  have dr0: "drop (nat s + k) (p @ r) = r" for r
    using drop_after_prefix [OF len_p, of 0 r] by simp
  have l3: "insertValues (insertStart ?d) (inserted ?d) (p @ drop (nat s + nat dc) ld)
          = p @ inserted ?d @ drop (nat s + nat dc) ld"
    unfolding insertValues_def st ns tk dr0 ..
  have "changed ?d @ inserted ?d = ins" by (simp add: ch ins)
  then have "p @ inserted ?d @ drop (nat s + nat dc) ld
           = take (nat s) ld @ ins @ drop (nat s + nat dc) ld"
    by (simp add: p_def)
  then show ?thesis
    by (simp add: Layout_onItemsChanged_def Let_def l1 l2 l3 nsd)
qed

lemma slice_copy: "js_slice_from xs 0 = xs"
  by (simp add: js_slice_from_suffix)

lemma index_after_scrolls: "\<forall>e \<in> set es. is_scroll e \<Longrightarrow> foldl index_after ld es = ld"
  by (induction es arbitrary: ld) (auto simp: index_after_def is_scroll_def split: list_view_event.splits)

lemma perform_scrolls:
  "foldl (perform (\<lambda>w. w)) c (map (\<lambda>se. EmitSoon (Scroll se)) evs)
     = c\<lparr>events := events c @ map Scroll evs\<rparr>"
  by (induction evs arbitrary: c) (simp_all add: perform_def emitSoon_def)

lemma Layout_listener_calls:
  "\<exists>evs. snd (Layout_listener cb l) = map (\<lambda>se. EmitSoon (Scroll se)) evs
        \<and> (\<forall>e. cb = OnItemsChanged e \<longrightarrow> evs = [])"
  by (cases cb) (auto simp: Layout_listener_def Let_def simp flip: map_append split: prod.splits)

lemma Layout_listener_index:
  "layoutData (fst (Layout_listener cb l))
     = (case cb of OnItemsChanged e \<Rightarrow> Layout_onItemsChanged e (layoutData l) | _ \<Rightarrow> layoutData l)"
  by (cases cb) (auto simp: Layout_listener_def Let_def split: prod.splits)

lemma invoke_Layout:
  "\<exists>evs. invoke (\<lambda>h. Layout_listener) (\<lambda>w. w) cb c h
           = c\<lparr>invoked := invoked c @ [(h, cb)],
               world := fst (Layout_listener cb (world c)),
               events := events c @ map Scroll evs\<rparr>
        \<and> (\<forall>e. cb = OnItemsChanged e \<longrightarrow> evs = [])"
proof -
  obtain evs where evs: "snd (Layout_listener cb (world c)) = map (\<lambda>se. EmitSoon (Scroll se)) evs"
    "\<forall>e. cb = OnItemsChanged e \<longrightarrow> evs = []"
    using Layout_listener_calls by blast
  have "invoke (\<lambda>h. Layout_listener) (\<lambda>w. w) cb c h
      = foldl (perform (\<lambda>w. w))
          (c\<lparr>invoked := invoked c @ [(h, cb)], world := fst (Layout_listener cb (world c))\<rparr>)
          (snd (Layout_listener cb (world c)))"
    by (simp add: invoke_def split: prod.splits)
  then show ?thesis
    using evs by (auto simp: perform_scrolls intro!: exI [of _ evs])
qed

lemma call_all_single: "call_all H oa [h] cb c = invoke H oa cb c h"
  by (simp add: call_all_def)

text \<open>What one dispatch does to the index that the pending events will produce.\<close>

lemma dispatch_Layout:
  "\<exists>scrolls. (\<forall>e' \<in> set scrolls. is_scroll e')
     \<and> events (dispatch (\<lambda>h. Layout_listener) (\<lambda>w. w) [h] e c) = events c @ scrolls
     \<and> layoutData (world (dispatch (\<lambda>h. Layout_listener) (\<lambda>w. w) [h] e c))
         = index_after (layoutData (world c)) e
     \<and> (is_scroll e \<or> e = OtherEvent \<longrightarrow> scrolls = [])
     \<and> listeners (dispatch (\<lambda>h. Layout_listener) (\<lambda>w. w) [h] e c) = listeners c"
proof (cases e)
  case (DimensionChanged d)
  obtain evs where "invoke (\<lambda>h. Layout_listener) (\<lambda>w. w) (OnDimensionChanged d) c h
           = c\<lparr>invoked := invoked c @ [(h, OnDimensionChanged d)],
               world := fst (Layout_listener (OnDimensionChanged d) (world c)),
               events := events c @ map Scroll evs\<rparr>"
    using invoke_Layout by blast
  then show ?thesis
    using DimensionChanged
    by (auto simp: dispatch_def call_all_single index_after_def is_scroll_def Layout_listener_index
        intro!: exI [of _ "map Scroll evs"])
next
  case (Scroll se)
  then show ?thesis by (simp add: dispatch_def index_after_def is_scroll_def)
next
  case (ItemsChanged ic)
  obtain evs where "invoke (\<lambda>h. Layout_listener) (\<lambda>w. w) (OnItemsChanged ic) c h
           = c\<lparr>invoked := invoked c @ [(h, OnItemsChanged ic)],
               world := fst (Layout_listener (OnItemsChanged ic) (world c)),
               events := events c @ map Scroll evs\<rparr>" "evs = []"
    using invoke_Layout by blast
  then show ?thesis
    using ItemsChanged
    by (auto simp: dispatch_def call_all_single index_after_def is_scroll_def Layout_listener_index)
next
  case OtherEvent
  then show ?thesis by (simp add: dispatch_def index_after_def is_scroll_def)
qed

lemma pending_index_step:
  "pending_index (dispatch (\<lambda>h. Layout_listener) (\<lambda>w. w) [h] e (c\<lparr>events := es\<rparr>))
     = pending_index (c\<lparr>events := e # es\<rparr>)"
proof -
  obtain scrolls where s: "\<forall>e' \<in> set scrolls. is_scroll e'"
    "events (dispatch (\<lambda>h. Layout_listener) (\<lambda>w. w) [h] e (c\<lparr>events := es\<rparr>)) = es @ scrolls"
    "layoutData (world (dispatch (\<lambda>h. Layout_listener) (\<lambda>w. w) [h] e (c\<lparr>events := es\<rparr>)))
         = index_after (layoutData (world c)) e"
    using dispatch_Layout [of h e "c\<lparr>events := es\<rparr>"] by auto
  show ?thesis
    by (simp add: pending_index_def s index_after_scrolls)
qed

lemma flush_loop_Layout:
  "flush_loop (\<lambda>h. Layout_listener) (\<lambda>w. w) [h] n c = Some c'
   \<Longrightarrow> events c' = [] \<and> layoutData (world c') = pending_index c \<and> listeners c' = listeners c"
proof (induction n arbitrary: c)
  case 0
  then show ?case by (simp add: pending_index_def split: if_splits)
next
  case (Suc n)
  show ?case
  proof (cases "events c")
    case Nil
    with Suc.prems show ?thesis by (simp add: pending_index_def)
  next
    case (Cons e es)
    let ?c1 = "dispatch (\<lambda>h. Layout_listener) (\<lambda>w. w) [h] e (c\<lparr>events := es\<rparr>)"
    from Suc.prems Cons have "flush_loop (\<lambda>h. Layout_listener) (\<lambda>w. w) [h] n ?c1 = Some c'"
      by simp
    from Suc.IH [OF this] have "events c' = []" "layoutData (world c') = pending_index ?c1"
      "listeners c' = listeners ?c1"
      by simp_all
    moreover have "pending_index ?c1 = pending_index c"
      using pending_index_step [where h = h and e = e and c = c and es = es] Cons by (simp add: pending_index_def)
    moreover have "listeners ?c1 = listeners c"
      using dispatch_Layout [of h e "c\<lparr>events := es\<rparr>"] by auto
    ultimately show ?thesis by simp
  qed
qed

lemma invoke_Layout_quiet:
  assumes "\<And>e. cb \<noteq> OnItemsChanged e"
  shows "\<exists>scrolls. (\<forall>e' \<in> set scrolls. is_scroll e')
     \<and> events (invoke (\<lambda>h. Layout_listener) (\<lambda>w. w) cb c h) = events c @ scrolls
     \<and> layoutData (world (invoke (\<lambda>h. Layout_listener) (\<lambda>w. w) cb c h)) = layoutData (world c)
     \<and> listeners (invoke (\<lambda>h. Layout_listener) (\<lambda>w. w) cb c h) = listeners c"
proof -
  obtain evs where "invoke (\<lambda>h. Layout_listener) (\<lambda>w. w) cb c h
           = c\<lparr>invoked := invoked c @ [(h, cb)],
               world := fst (Layout_listener cb (world c)),
               events := events c @ map Scroll evs\<rparr>"
    using invoke_Layout by blast
  moreover have "layoutData (fst (Layout_listener cb (world c))) = layoutData (world c)"
    using assms by (cases cb) (auto simp: Layout_listener_index)
  ultimately show ?thesis
    by (auto simp: is_scroll_def intro!: exI [of _ "map Scroll evs"])
qed

lemma flush_Layout:
  assumes "listeners c = [h]" and "flush (\<lambda>h. Layout_listener) (\<lambda>w. w) fuel c = Some c'"
  shows "layoutData (world c') = pending_index c \<and> pending_index c' = pending_index c
       \<and> listeners c' = [h]"
proof -
  let ?c1 = "invoke (\<lambda>h. Layout_listener) (\<lambda>w. w) OnBeforeEventsDispatch c h"
  obtain c2 where c2: "flush_loop (\<lambda>h. Layout_listener) (\<lambda>w. w) [h] fuel ?c1 = Some c2"
    and c': "c' = invoke (\<lambda>h. Layout_listener) (\<lambda>w. w) OnAfterEventsDispatch c2 h"
    using assms by (auto simp: flush_def Let_def slice_copy call_all_single split: option.splits)
  obtain s1 where s1: "\<forall>e' \<in> set s1. is_scroll e'" "events ?c1 = events c @ s1"
    "layoutData (world ?c1) = layoutData (world c)" "listeners ?c1 = listeners c"
    using invoke_Layout_quiet [of OnBeforeEventsDispatch c h] by auto
  have p1: "pending_index ?c1 = pending_index c"
    by (simp add: pending_index_def s1 index_after_scrolls)
  have l2: "events c2 = []" "layoutData (world c2) = pending_index ?c1" "listeners c2 = listeners ?c1"
    using flush_loop_Layout [OF c2] by simp_all
  obtain s3 where s3: "\<forall>e' \<in> set s3. is_scroll e'" "events c' = events c2 @ s3"
    "layoutData (world c') = layoutData (world c2)" "listeners c' = listeners c2"
    using invoke_Layout_quiet [of OnAfterEventsDispatch c2 h] c' by auto
  show ?thesis
    using assms(1) by (simp add: s3 l2 p1 s1 pending_index_def index_after_scrolls)
qed

lemma flush_loop_Layout_ends:
  "\<exists>n c'. flush_loop (\<lambda>h. Layout_listener) (\<lambda>w. w) [h] n c = Some c'"
proof -
  have "wf (inv_image (less_than <*lex*> less_than)
             (\<lambda>c :: list_view_layout list_view_context. (loud (events c), length (events c))))"
    by (intro wf_inv_image wf_lex_prod wf_less_than)
  then show ?thesis
  proof (induct c rule: wf_induct_rule)
    case (less c)
    show ?case
    proof (cases "events c")
      case Nil
      then have "flush_loop (\<lambda>h. Layout_listener) (\<lambda>w. w) [h] 0 c = Some c" by simp
      then show ?thesis by blast
    next
      case (Cons e es)
      let ?c1 = "dispatch (\<lambda>h. Layout_listener) (\<lambda>w. w) [h] e (c\<lparr>events := es\<rparr>)"
      obtain scrolls where s: "\<forall>e' \<in> set scrolls. is_scroll e'" "events ?c1 = es @ scrolls"
        "is_scroll e \<or> e = OtherEvent \<longrightarrow> scrolls = []"
        using dispatch_Layout [of h e "c\<lparr>events := es\<rparr>"] by auto
      have quiet: "filter (\<lambda>e. \<not> is_scroll e) scrolls = []"
        using s(1) by (induction scrolls) auto
      have "(?c1, c) \<in> inv_image (less_than <*lex*> less_than)
             (\<lambda>c :: list_view_layout list_view_context. (loud (events c), length (events c)))"
      proof (cases "is_scroll e")
        case True
        then show ?thesis using s Cons by (simp add: loud_def)
      next
        case False
        then show ?thesis using s Cons quiet by (simp add: loud_def)
      qed
      from less [OF this] obtain n c' where
        "flush_loop (\<lambda>h. Layout_listener) (\<lambda>w. w) [h] n ?c1 = Some c'" by blast
      then have "flush_loop (\<lambda>h. Layout_listener) (\<lambda>w. w) [h] (Suc n) c = Some c'"
        using Cons by simp
      then show ?thesis by blast
    qed
  qed
qed

lemma flush_Layout_ends:
  assumes "listeners c = [h]"
  shows "\<exists>fuel c'. flush (\<lambda>h. Layout_listener) (\<lambda>w. w) fuel c = Some c'"
proof -
  obtain n c2 where "flush_loop (\<lambda>h. Layout_listener) (\<lambda>w. w) [h] n
      (call_all (\<lambda>h. Layout_listener) (\<lambda>w. w) [h] OnBeforeEventsDispatch c) = Some c2"
    using flush_loop_Layout_ends by blast
  then have "flush (\<lambda>h. Layout_listener) (\<lambda>w. w) n c
      = Some (call_all (\<lambda>h. Layout_listener) (\<lambda>w. w) [h] OnAfterEventsDispatch c2)"
    using assms by (simp add: flush_def Let_def slice_copy)
  then show ?thesis by blast
qed

lemma mirrors_bind: "mirrors (bind_model m)"
  by (simp add: mirrors_def bind_model_def pending_index_def addEventHandler_def
      new_ListViewContext_def new_ListViewLayout_def Let_def slice_copy)

lemma pending_index_emit:
  "pending_index (emitSoon (\<lambda>w. w) e c) = index_after (pending_index c) e"
  by (simp add: pending_index_def emitSoon_def)

lemma heights_after_splice:
  assumes "0 \<le> s" "0 \<le> dc"
  shows "map cachedHeight (js_slice (items m) 0 s @ toMyItems its @ js_slice_from (items m) (s + dc))
       = take (nat s) (getAllHeights m) @ map item_height its @ drop (nat (s + dc)) (getAllHeights m)"
  using assms
  by (simp add: js_slice_prefix js_slice_from_suffix getAllHeights_def toMyItems_def
      take_map drop_map comp_def)

lemma mirrors_step:
  assumes "mirrors b" and "valid_op b op" and "widget_step b op = Some b'"
  shows "mirrors b'"
proof (cases op)
  case (Splice s dc its)
  let ?ev = "\<lparr>vm_versionId = model_versionId (bound_items b) + 1, vm_start = s,
              vm_deleteCnt = dc, vm_inserted = map item_height its\<rparr>"
  have v: "0 \<le> s" "0 \<le> dc" "s + dc \<le> int (length (getAllHeights (bound_items b)))"
    using assms(2) Splice by (simp_all add: valid_op_def getAllHeights_def)
  have b': "b' = \<lparr>bound_items = \<lparr>items = js_slice (items (bound_items b)) 0 s @ toMyItems its
                        @ js_slice_from (items (bound_items b)) (s + dc),
                      model_versionId = model_versionId (bound_items b) + 1\<rparr>,
                  bound_ctx = emitSoon (\<lambda>w. w) (ItemsChanged (ListViewItemsChangedEvent ?ev)) (bound_ctx b)\<rparr>"
    using assms(3) Splice
    by (simp add: widget_step_def splice_returns acceptViewModelEvent_def)
  have "pending_index (bound_ctx b')
      = Layout_onItemsChanged (ListViewItemsChangedEvent ?ev) (getAllHeights (bound_items b))"
    using assms(1) by (simp add: b' pending_index_emit index_after_def mirrors_def)
  also have "\<dots> = take (nat s) (getAllHeights (bound_items b)) @ map item_height its
                   @ drop (nat (s + dc)) (getAllHeights (bound_items b))"
    using v by (rule onItemsChanged_valid)
  also have "\<dots> = getAllHeights (bound_items b')"
    using heights_after_splice [OF v(1,2), of "bound_items b" its]
    by (simp add: b' getAllHeights_def)
  finally show ?thesis
    using assms(1) by (simp add: mirrors_def b' emitSoon_def)
next
  case (Resize d)
  then have "b' = b\<lparr>bound_ctx := emitSoon (\<lambda>w. w) (DimensionChanged d) (bound_ctx b)\<rparr>"
    using assms(3) by (simp add: widget_step_def acceptDimension_def)
  then show ?thesis
    using assms(1) by (simp add: mirrors_def pending_index_emit index_after_def) (simp add: emitSoon_def)
next
  case (Flush fuel)
  then obtain c' where c': "flush (\<lambda>h. Layout_listener) (\<lambda>w. w) fuel (bound_ctx b) = Some c'"
    and b': "b' = b\<lparr>bound_ctx := c'\<rparr>"
    using assms(3) by (auto simp: widget_step_def split: option.splits)
  have "listeners (bound_ctx b) = [layout_lid]"
    using assms(1) by (simp add: mirrors_def)
  from flush_Layout [OF this c'] show ?thesis
    using assms(1) by (simp add: mirrors_def b')
qed

lemma mirrors_run:
  "mirrors b \<Longrightarrow> valid_ops b ops \<Longrightarrow> run_ops b ops = Some b' \<Longrightarrow> mirrors b'"
proof (induction ops arbitrary: b)
  case Nil
  then show ?case by simp
next
  case (Cons op ops)
  from Cons.prems(3) obtain b1 where b1: "widget_step b op = Some b1" "run_ops b1 ops = Some b'"
    by (auto split: option.splits)
  have "mirrors b1"
    using Cons.prems(1,2) b1(1) by (auto intro: mirrors_step)
  moreover have "valid_ops b1 ops"
    using Cons.prems(2) b1(1) by simp
  ultimately show ?case
    using Cons.IH b1(2) by blast
qed

text \<open>
  Claim C3. For every sequence of valid splice calls on a model bound to a layout engine,
  interleaved in any way with resizes and dispatch cycles, a dispatch cycle run in the
  state reached completes, and after it the offset index holds exactly the cached heights
  of the items currently in the model, entry by entry: its total is their sum and its
  count is the length of the model. The layout engine applies every decomposed event in
  the order changed, deleted, inserted.
\<close>

theorem index_mirrors_model:
  assumes "valid_ops (bind_model m) ops" and "run_ops (bind_model m) ops = Some b"
  shows "(\<exists>fuel b'. widget_step b (Flush fuel) = Some b')
       \<and> (\<forall>fuel b'. widget_step b (Flush fuel) = Some b' \<longrightarrow>
            bound_items b' = bound_items b
          \<and> layoutData (world (bound_ctx b')) = getAllHeights (bound_items b')
          \<and> getTotalValue (layoutData (world (bound_ctx b')))
              = sum_list (map cachedHeight (items (bound_items b')))
          \<and> getCount (layoutData (world (bound_ctx b'))) = int (length (items (bound_items b'))))"
proof -
  have m: "mirrors b"
    using mirrors_bind assms by (rule mirrors_run)
  then have l: "listeners (bound_ctx b) = [layout_lid]"
    by (simp add: mirrors_def)
  have ex: "\<exists>fuel b'. widget_step b (Flush fuel) = Some b'"
  proof -
    obtain fuel c' where "flush (\<lambda>h. Layout_listener) (\<lambda>w. w) fuel (bound_ctx b) = Some c'"
      using flush_Layout_ends [OF l] by blast
    then have "widget_step b (Flush fuel) = Some (b\<lparr>bound_ctx := c'\<rparr>)"
      by (simp add: widget_step_def)
    then show ?thesis by blast
  qed
  have all: "bound_items b' = bound_items b
          \<and> layoutData (world (bound_ctx b')) = getAllHeights (bound_items b')
          \<and> getTotalValue (layoutData (world (bound_ctx b')))
              = sum_list (map cachedHeight (items (bound_items b')))
          \<and> getCount (layoutData (world (bound_ctx b'))) = int (length (items (bound_items b')))"
    if "widget_step b (Flush fuel) = Some b'" for fuel b'
  proof -
    from that obtain c' where c': "flush (\<lambda>h. Layout_listener) (\<lambda>w. w) fuel (bound_ctx b) = Some c'"
      and b': "b' = b\<lparr>bound_ctx := c'\<rparr>"
      by (auto simp: widget_step_def split: option.splits)
    have "layoutData (world c') = getAllHeights (bound_items b)"
      using flush_Layout [OF l c'] m by (simp add: mirrors_def)
    then show ?thesis
      by (simp add: b' getTotalValue_def getCount_def getAllHeights_def)
  qed
  show ?thesis
    using ex all by blast
qed

theorem index_mirrors_model_witness:
  "valid_ops
     (bind_model (new_view_model [\<lparr>item_height = 20, item_content = ''a''\<rparr>,
                                  \<lparr>item_height = 30, item_content = ''b''\<rparr>]))
     [Splice 1 1 [\<lparr>item_height = 25, item_content = ''c''\<rparr>,
                  \<lparr>item_height = 35, item_content = ''d''\<rparr>],
      Resize \<lparr>dim_width = 500, dim_height = 500\<rparr>, Flush 5, Splice 0 1 []]
   \<and> (\<exists>b. run_ops
          (bind_model (new_view_model [\<lparr>item_height = 20, item_content = ''a''\<rparr>,
                                       \<lparr>item_height = 30, item_content = ''b''\<rparr>]))
          [Splice 1 1 [\<lparr>item_height = 25, item_content = ''c''\<rparr>,
                       \<lparr>item_height = 35, item_content = ''d''\<rparr>],
           Resize \<lparr>dim_width = 500, dim_height = 500\<rparr>, Flush 5, Splice 0 1 []] = Some b
        \<and> (\<exists>fuel b'. widget_step b (Flush fuel) = Some b'
              \<and> layoutData (world (bound_ctx b')) = [25, 35]
              \<and> getTotalValue (layoutData (world (bound_ctx b'))) = 60))"
proof -
  let ?m = "new_view_model [\<lparr>item_height = 20, item_content = ''a''\<rparr>,
                            \<lparr>item_height = 30, item_content = ''b''\<rparr>]"
  let ?ops = "[Splice 1 1 [\<lparr>item_height = 25, item_content = ''c''\<rparr>,
                           \<lparr>item_height = 35, item_content = ''d''\<rparr>],
               Resize \<lparr>dim_width = 500, dim_height = 500\<rparr>, Flush 5, Splice 0 1 []]"
  have v: "valid_ops (bind_model ?m) ?ops"
    by code_simp
  have "case run_ops (bind_model ?m) ?ops of
          None \<Rightarrow> False
        | Some b \<Rightarrow> getAllHeights (bound_items b) = [25, 35]"
    by code_simp
  then obtain b where b: "run_ops (bind_model ?m) ?ops = Some b"
    and h: "getAllHeights (bound_items b) = [25, 35]"
    by (auto split: option.splits)
  from index_mirrors_model [OF v b] obtain fuel b' where
    s: "widget_step b (Flush fuel) = Some b'"
    and a: "\<forall>fuel b'. widget_step b (Flush fuel) = Some b' \<longrightarrow>
            bound_items b' = bound_items b
          \<and> layoutData (world (bound_ctx b')) = getAllHeights (bound_items b')
          \<and> getTotalValue (layoutData (world (bound_ctx b')))
              = sum_list (map cachedHeight (items (bound_items b')))
          \<and> getCount (layoutData (world (bound_ctx b'))) = int (length (items (bound_items b')))"
    by blast
  from a s have "bound_items b' = bound_items b"
    and "layoutData (world (bound_ctx b')) = getAllHeights (bound_items b')"
    by blast+
  then have ld: "layoutData (world (bound_ctx b')) = [25, 35]"
    using h by simp
  then have "getTotalValue (layoutData (world (bound_ctx b'))) = 60"
    by (simp add: getTotalValue_def)
  with v b s ld show ?thesis
    by blast
qed

section \<open>The visible window: getRenderData\<close>

lemma tops_loop_collect:
  "0 \<le> i \<Longrightarrow> tops_loop ld o2 i off r = r @ collect_tops (drop (nat i) ld) o2 off"
proof (induction ld o2 i off r rule: tops_loop.induct)
  case (1 ld o2 i off r)
  show ?case
  proof (cases "i < getCount ld")
    case False
    then have "drop (nat i) ld = []" by (simp add: getCount_def)
    with False show ?thesis by (subst tops_loop.simps) simp
  next
    case True
    then have lt: "nat i < length ld" using "1.prems" by (simp add: getCount_def)
    have dr: "drop (nat i) ld = getValue ld i # drop (nat (i + 1)) ld"
      using lt "1.prems" by (simp add: getValue_def Cons_nth_drop_Suc nat_add_distrib)
    show ?thesis
    proof (cases "off > o2")
      case True
      with \<open>i < getCount ld\<close> show ?thesis
        by (subst tops_loop.simps) (simp add: dr)
    next
      case False
      have "tops_loop ld o2 i off r
          = tops_loop ld o2 (i + 1) (off + getValue ld i) (r @ [off])"
        using False \<open>i < getCount ld\<close> by (subst tops_loop.simps) simp
      also have "\<dots> = (r @ [off]) @ collect_tops (drop (nat (i + 1)) ld) o2 (off + getValue ld i)"
        using "1.IH" [OF \<open>i < getCount ld\<close>] False "1.prems" by simp
      finally show ?thesis using False by (simp add: dr)
    qed
  qed
qed

lemma collect_tops_nth:
  "j < length (collect_tops vs o2 off) \<Longrightarrow> collect_tops vs o2 off ! j = off + sum_list (take j vs)"
proof (induction vs arbitrary: off j)
  case Nil
  then show ?case by simp
next
  case (Cons v vs)
  show ?case
  proof (cases j)
    case 0
    with Cons.prems show ?thesis by (simp split: if_splits)
  next
    case (Suc j')
    with Cons.prems have "\<not> off > o2" and "j' < length (collect_tops vs o2 (off + v))"
      by (simp_all split: if_splits)
    with Cons.IH [of j' "off + v"] Suc show ?thesis by simp
  qed
qed

lemma collect_tops_length: "length (collect_tops vs o2 off) \<le> length vs"
  by (induction vs arbitrary: off) simp_all

lemma sum_list_nonneg_take: "\<forall>v \<in> set vs. (0::int) \<le> v \<Longrightarrow> 0 \<le> sum_list (take j vs)"
  by (rule sum_list_nonneg) (auto dest: in_set_takeD)

lemma collect_tops_iff:
  "\<forall>v \<in> set vs. 0 \<le> v \<Longrightarrow> j < length vs \<Longrightarrow>
   (j < length (collect_tops vs o2 off)) = (off + sum_list (take j vs) \<le> o2)"
proof (induction vs arbitrary: off j)
  case Nil
  then show ?case by simp
next
  case (Cons v vs)
  show ?case
  proof (cases "off > o2")
    case True
    have "0 \<le> sum_list (take j (v # vs))"
      using Cons.prems(1) by (rule sum_list_nonneg_take)
    with True show ?thesis by simp
  next
    case False
    show ?thesis
    proof (cases j)
      case 0
      with False show ?thesis by simp
    next
      case (Suc j')
      with Cons.prems have "j' < length vs" and "\<forall>v \<in> set vs. 0 \<le> v" by simp_all
      from Cons.IH [OF this(2,1), of "off + v"] False Suc show ?thesis
        by (simp add: add.assoc)
    qed
  qed
qed

lemma indexOf_walk_spec:
  assumes "vs \<noteq> []" and "\<forall>v \<in> set vs. 0 \<le> v" and "0 \<le> y"
  shows "\<exists>k. indexOf_walk vs y i0 = (i0 + int k, y - sum_list (take k vs))
           \<and> k < length vs
           \<and> sum_list (take k vs) \<le> y
           \<and> (y < sum_list vs \<longrightarrow> y < sum_list (take (Suc k) vs))
           \<and> (sum_list vs \<le> y \<longrightarrow> Suc k = length vs)"
  using assms
proof (induction vs y i0 rule: indexOf_walk.induct)
  case (1 y i)
  then show ?case by simp
next
  case (2 v y i)
  then show ?case by (intro exI [of _ 0]) simp
next
  case (3 v w vs y i)
  show ?case
  proof (cases "y < v")
    case True
    have "0 \<le> sum_list (w # vs)"
      using "3.prems"(2) by (intro sum_list_nonneg) auto
    with True "3.prems" show ?thesis
      by (intro exI [of _ 0]) simp
  next
    case False
    then have "0 \<le> y - v" by simp
    moreover have "\<forall>x \<in> set (w # vs). 0 \<le> x" using "3.prems"(2) by simp
    ultimately obtain k where k:
      "indexOf_walk (w # vs) (y - v) (i + 1) = (i + 1 + int k, y - v - sum_list (take k (w # vs)))"
      "k < length (w # vs)"
      "sum_list (take k (w # vs)) \<le> y - v"
      "y - v < sum_list (w # vs) \<longrightarrow> y - v < sum_list (take (Suc k) (w # vs))"
      "sum_list (w # vs) \<le> y - v \<longrightarrow> Suc k = length (w # vs)"
      using "3.IH" [OF False] by blast
    show ?thesis
      using False k by (intro exI [of _ "Suc k"]) (auto simp: algebra_simps)
  qed
qed

lemma getIndexOf_spec:
  assumes "ld \<noteq> []" and "\<forall>v \<in> set ld. 0 \<le> v" and "0 \<le> y"
  shows "\<exists>k. getIndexOf ld y = (int k, y - sum_list (take k ld))
           \<and> k < length ld
           \<and> sum_list (take k ld) \<le> y
           \<and> (y < sum_list ld \<longrightarrow> y < sum_list (take (Suc k) ld))
           \<and> (sum_list ld \<le> y \<longrightarrow> Suc k = length ld)"
  using indexOf_walk_spec [OF assms, of 0] assms(1) by (simp add: getIndexOf_def)

lemma item_top_sum: "0 \<le> i \<Longrightarrow> item_top ld i = sum_list (take (nat i) ld)"
  by (simp add: item_top_def getAccumulatedValue_def)

lemma item_bottom_sum: "0 \<le> i \<Longrightarrow> item_bottom ld i = sum_list (take (Suc (nat i)) ld)"
  by (simp add: item_bottom_def getAccumulatedValue_def nat_add_distrib)

lemma sum_list_take_mono:
  assumes "\<forall>v \<in> set vs. (0::int) \<le> v" and "a \<le> b"
  shows "sum_list (take a vs) \<le> sum_list (take b vs)"
proof -
  have "take b vs = take a vs @ take (b - a) (drop a vs)"
    using assms(2) by (metis le_add_diff_inverse take_add)
  moreover have "0 \<le> sum_list (take (b - a) (drop a vs))"
    using assms(1) by (intro sum_list_nonneg) (auto dest!: in_set_takeD in_set_dropD)
  ultimately show ?thesis by simp
qed

lemma getRenderData_fields:
  "startIndex (getRenderData l) = fst (getIndexOf (layoutData l) (scrollTop (layout_scrollable l)))"
  "tops (getRenderData l)
     = tops_loop (layoutData l)
         (scrollTop (layout_scrollable l) + height (layout_scrollable l))
         (fst (getIndexOf (layoutData l) (scrollTop (layout_scrollable l))))
         (getAccumulatedValue (layoutData l)
            (fst (getIndexOf (layoutData l) (scrollTop (layout_scrollable l))) - 1)) []"
  by (simp_all add: getRenderData_def Let_def)

text \<open>
  Claim C4, amended. For every scroll offset \<open>top \<ge> 0\<close> and viewport height \<open>h\<close>,
  over an index that is not empty and holds no negative size, \<open>getRenderData\<close> returns
  \<open>startIndex\<close> = the index of the item containing offset \<open>top\<close> (the last item when
  \<open>top\<close> is at or beyond the total content height; the query never fails), and \<open>tops\<close>
  holds the absolute top offsets of the consecutive items from \<open>startIndex\<close> on whose
  top edge is at most \<open>top + h\<close>: every item fully or partially visible in
  \<open>[top, top + h)\<close> is among them, and so is an item whose top edge is exactly at
  \<open>top + h\<close>.
\<close>

theorem render_data_window:
  assumes ne: "layoutData l \<noteq> []"
    and nn: "\<forall>v \<in> set (layoutData l). 0 \<le> v"
    and tp: "0 \<le> scrollTop (layout_scrollable l)"
  shows "0 \<le> startIndex (getRenderData l)
       \<and> startIndex (getRenderData l) < getCount (layoutData l)
       \<and> item_top (layoutData l) (startIndex (getRenderData l)) \<le> scrollTop (layout_scrollable l)
       \<and> (scrollTop (layout_scrollable l) < getTotalValue (layoutData l) \<longrightarrow>
            scrollTop (layout_scrollable l)
              < item_bottom (layoutData l) (startIndex (getRenderData l)))
       \<and> (getTotalValue (layoutData l) \<le> scrollTop (layout_scrollable l) \<longrightarrow>
            startIndex (getRenderData l) = getCount (layoutData l) - 1)
       \<and> (\<forall>j. j < length (tops (getRenderData l)) \<longrightarrow>
            tops (getRenderData l) ! j
              = item_top (layoutData l) (startIndex (getRenderData l) + int j))
       \<and> (\<forall>i. startIndex (getRenderData l) \<le> i \<and> i < getCount (layoutData l) \<longrightarrow>
            rendered_item (getRenderData l) i
              = (item_top (layoutData l) i
                   \<le> scrollTop (layout_scrollable l) + height (layout_scrollable l)))
       \<and> (\<forall>i. rendered_item (getRenderData l) i \<longrightarrow> 0 \<le> i \<and> i < getCount (layoutData l))
       \<and> (\<forall>i. visible_item (layoutData l) (scrollTop (layout_scrollable l))
                 (height (layout_scrollable l)) i \<longrightarrow>
            rendered_item (getRenderData l) i)"
proof -
  define ld where "ld = layoutData l"
  define y where "y = scrollTop (layout_scrollable l)"
  define o2 where "o2 = y + height (layout_scrollable l)"
  define rd where "rd = getRenderData l"
  obtain k where k: "getIndexOf ld y = (int k, y - sum_list (take k ld))"
    "k < length ld" "sum_list (take k ld) \<le> y"
    "y < sum_list ld \<longrightarrow> y < sum_list (take (Suc k) ld)"
    "sum_list ld \<le> y \<longrightarrow> Suc k = length ld"
    using getIndexOf_spec [of ld y] ne nn tp unfolding ld_def y_def by blast
  have nn': "\<forall>v \<in> set ld. 0 \<le> v" using nn by (simp add: ld_def)
  have s: "startIndex rd = int k"
    by (simp add: rd_def getRenderData_fields k flip: ld_def y_def)
  have t: "tops rd = collect_tops (drop k ld) o2 (sum_list (take k ld))"
    by (simp add: rd_def getRenderData_fields k tops_loop_collect getAccumulatedValue_def
        flip: ld_def y_def o2_def)
  have top_at: "item_top ld (int k + int j) = sum_list (take k ld) + sum_list (take j (drop k ld))" for j
  proof -
    have "item_top ld (int k + int j) = sum_list (take (k + j) ld)"
      using item_top_sum [of "int k + int j" ld] by (simp add: nat_add_distrib)
    then show ?thesis by (simp add: take_add)
  qed
  have c1: "0 \<le> startIndex rd \<and> startIndex rd < getCount ld"
    using k(2) by (simp add: s getCount_def)
  have c2: "item_top ld (startIndex rd) \<le> y"
    using k(3) by (simp add: s item_top_sum)
  have c3: "y < getTotalValue ld \<longrightarrow> y < item_bottom ld (startIndex rd)"
    using k(4) by (simp add: s item_bottom_sum getTotalValue_def)
  have c4: "getTotalValue ld \<le> y \<longrightarrow> startIndex rd = getCount ld - 1"
    using k(5) by (auto simp: s getTotalValue_def getCount_def)
  have c5: "tops rd ! j = item_top ld (startIndex rd + int j)" if "j < length (tops rd)" for j
    using that collect_tops_nth [of j "drop k ld" o2 "sum_list (take k ld)"]
    by (simp add: t s top_at)
  have c6: "rendered_item rd i = (item_top ld i \<le> o2)"
    if "startIndex rd \<le> i \<and> i < getCount ld" for i
  proof -
    define j where "j = nat (i - int k)"
    have i: "i = int k + int j" using that by (simp add: j_def s)
    have jl: "j < length (drop k ld)" using that by (simp add: j_def getCount_def s) linarith
    have "\<forall>v \<in> set (drop k ld). 0 \<le> v" using nn' by (auto dest: in_set_dropD)
    from collect_tops_iff [OF this jl, of o2 "sum_list (take k ld)"]
    have "(j < length (tops rd)) = (item_top ld i \<le> o2)"
      by (simp add: t i top_at)
    moreover have "rendered_item rd i = (j < length (tops rd))"
      by (simp add: rendered_item_def s i)
    ultimately show ?thesis by simp
  qed
  have c7: "0 \<le> i \<and> i < getCount ld" if "rendered_item rd i" for i
  proof -
    have "length (tops rd) \<le> length ld - k"
      using collect_tops_length [of "drop k ld" o2 "sum_list (take k ld)"] by (simp add: t)
    then show ?thesis
      using that k(2) by (simp add: rendered_item_def s getCount_def) linarith
  qed
  have c8: "rendered_item rd i" if "visible_item ld y (height (layout_scrollable l)) i" for i
  proof -
    from that have v: "0 \<le> i" "i < getCount ld" "item_top ld i < o2" "y < item_bottom ld i"
      by (simp_all add: visible_item_def o2_def)
    have "startIndex rd \<le> i"
    proof (rule ccontr)
      assume "\<not> startIndex rd \<le> i"
      then have "Suc (nat i) \<le> k" using v(1) by (simp add: s)
      from sum_list_take_mono [OF nn' this] have "item_bottom ld i \<le> sum_list (take k ld)"
        using v(1) by (simp add: item_bottom_sum)
      with k(3) v(4) show False by simp
    qed
    with c6 [of i] v show ?thesis by simp
  qed
  show ?thesis
    using c1 c2 c3 c4 c5 c6 c7 c8
    unfolding ld_def y_def o2_def rd_def by blast
qed

theorem render_data_window_witness:
  "layoutData \<lparr>layout_scrollable = \<lparr>scrollTop = 245, scrollLeft = 0, scrollWidth = 500,
                   scrollHeight = 500, width = 500, height = 100\<rparr>,
                 layoutData = [20, 30, 20, 30, 20, 30, 20, 30, 20, 30, 20, 30, 20, 30, 20, 30]\<rparr> \<noteq> []
   \<and> startIndex (getRenderData
         \<lparr>layout_scrollable = \<lparr>scrollTop = 245, scrollLeft = 0, scrollWidth = 500,
                   scrollHeight = 500, width = 500, height = 100\<rparr>,
          layoutData = [20, 30, 20, 30, 20, 30, 20, 30, 20, 30, 20, 30, 20, 30, 20, 30]\<rparr>) = 9
   \<and> tops (getRenderData
         \<lparr>layout_scrollable = \<lparr>scrollTop = 245, scrollLeft = 0, scrollWidth = 500,
                   scrollHeight = 500, width = 500, height = 100\<rparr>,
          layoutData = [20, 30, 20, 30, 20, 30, 20, 30, 20, 30, 20, 30, 20, 30, 20, 30]\<rparr>)
       = [220, 250, 270, 300, 320]
   \<and> item_top [20, 30, 20, 30, 20, 30, 20, 30, 20, 30, 20, 30, 20, 30, 20, 30] 9 \<le> 245
   \<and> 245 < item_bottom [20, 30, 20, 30, 20, 30, 20, 30, 20, 30, 20, 30, 20, 30, 20, 30] 9"
proof -
  let ?l = "\<lparr>layout_scrollable = \<lparr>scrollTop = 245, scrollLeft = 0, scrollWidth = 500,
                   scrollHeight = 500, width = 500, height = 100\<rparr>,
             layoutData = [20, 30, 20, 30, 20, 30, 20, 30, 20, 30, 20, 30, 20, 30, 20, 30]\<rparr>"
  have ne: "layoutData ?l \<noteq> []" by simp
  have nn: "\<forall>v \<in> set (layoutData ?l). 0 \<le> v" by simp
  have tp: "0 \<le> scrollTop (layout_scrollable ?l)" by simp
  have s: "startIndex (getRenderData ?l) = 9" by code_simp
  have t: "tops (getRenderData ?l) = [220, 250, 270, 300, 320]" by code_simp
  have tot: "scrollTop (layout_scrollable ?l) < getTotalValue (layoutData ?l)"
    by (simp add: getTotalValue_def)
  from render_data_window [OF ne nn tp] tot
  have "item_top (layoutData ?l) (startIndex (getRenderData ?l)) \<le> scrollTop (layout_scrollable ?l)"
    and "scrollTop (layout_scrollable ?l) < item_bottom (layoutData ?l) (startIndex (getRenderData ?l))"
    by blast+
  then show ?thesis
    using s t by simp
qed

text \<open>
  Claim C4, as stated, fails at the lower edge of the viewport: the loop stops at the first
  item whose top edge is greater than \<open>top + h\<close>, so an item whose top edge is exactly
  \<open>top + h\<close> is collected although it does not meet \<open>[top, top + h)\<close>. With three
  items of height 10, \<open>top = 0\<close> and \<open>h = 10\<close>, the second item (offsets 10 to 20) is
  rendered and not visible.
\<close>

theorem render_data_edge_counterexample:
  "tops (getRenderData
      \<lparr>layout_scrollable = \<lparr>scrollTop = 0, scrollLeft = 0, scrollWidth = 0,
                             scrollHeight = 30, width = 0, height = 10\<rparr>,
       layoutData = [10, 10, 10]\<rparr>) = [0, 10]
   \<and> rendered_item (getRenderData
      \<lparr>layout_scrollable = \<lparr>scrollTop = 0, scrollLeft = 0, scrollWidth = 0,
                             scrollHeight = 30, width = 0, height = 10\<rparr>,
       layoutData = [10, 10, 10]\<rparr>) 1
   \<and> \<not> visible_item [10, 10, 10] 0 10 1"
  by code_simp

section \<open>The order of callbacks in a flush\<close>

lemma perform_invoked: "invoked (perform oa c call) = invoked c"
  by (cases call) (simp_all add: perform_def addEventHandler_def removeEventHandler_def emitSoon_def)

lemma perform_events: "\<exists>new. events (perform oa c call) = events c @ new"
  by (cases call) (simp_all add: perform_def addEventHandler_def removeEventHandler_def emitSoon_def)

lemma performs_invoked: "invoked (foldl (perform oa) c calls) = invoked c"
  by (induction calls arbitrary: c) (simp_all add: perform_invoked)

lemma performs_events: "\<exists>new. events (foldl (perform oa) c calls) = events c @ new"
proof (induction calls arbitrary: c)
  case Nil
  then show ?case by simp
next
  case (Cons call calls)
  obtain n1 where "events (perform oa c call) = events c @ n1"
    using perform_events by blast
  moreover obtain n2 where
    "events (foldl (perform oa) (perform oa c call) calls) = events (perform oa c call) @ n2"
    using Cons.IH by blast
  ultimately show ?case by simp
qed

lemma invoke_invoked: "invoked (invoke H oa cb c h) = invoked c @ [(h, cb)]"
  by (simp add: invoke_def performs_invoked split: prod.splits)

lemma invoke_events: "\<exists>new. events (invoke H oa cb c h) = events c @ new"
proof -
  obtain w' calls where hc: "H h cb (world c) = (w', calls)" by (cases "H h cb (world c)")
  obtain new where
    "events (foldl (perform oa) (c\<lparr>invoked := invoked c @ [(h, cb)], world := w'\<rparr>) calls)
       = events (c\<lparr>invoked := invoked c @ [(h, cb)], world := w'\<rparr>) @ new"
    using performs_events by blast
  then show ?thesis by (simp add: invoke_def hc)
qed

lemma dequeued_0: "dequeued 0 c = c"
  by (simp add: dequeued_def)

lemma dequeued_dequeued: "dequeued j (dequeued k c) = dequeued (k + j) c"
  by (simp add: dequeued_def add.commute)

lemma perform_dequeued:
  "k \<le> length (events c) \<Longrightarrow> perform oa (dequeued k c) call = dequeued k (perform oa c call)"
  by (cases call)
    (simp_all add: perform_def dequeued_def addEventHandler_def removeEventHandler_def
      emitSoon_def)

lemma perform_events_length: "length (events c) \<le> length (events (perform oa c call))"
  using perform_events [of oa c call] by auto

lemma performs_dequeued:
  "k \<le> length (events c) \<Longrightarrow>
   foldl (perform oa) (dequeued k c) calls = dequeued k (foldl (perform oa) c calls)"
proof (induction calls arbitrary: c)
  case Nil
  then show ?case by simp
next
  case (Cons call calls)
  have "k \<le> length (events (perform oa c call))"
    using Cons.prems perform_events_length [of c oa call] by linarith
  then show ?case
    using Cons.prems by (simp add: perform_dequeued Cons.IH)
qed

lemma invoke_dequeued:
  assumes "k \<le> length (events c)"
  shows "invoke H oa cb (dequeued k c) h = dequeued k (invoke H oa cb c h)"
proof -
  obtain w' calls where hc: "H h cb (world c) = (w', calls)" by (cases "H h cb (world c)")
  let ?c1 = "c\<lparr>invoked := invoked c @ [(h, cb)], world := w'\<rparr>"
  have a: "(dequeued k c)\<lparr>invoked := invoked (dequeued k c) @ [(h, cb)], world := w'\<rparr>
          = dequeued k ?c1"
    by (simp add: dequeued_def)
  have b: "k \<le> length (events ?c1)" using assms by simp
  have w: "world (dequeued k c) = world c" by (simp add: dequeued_def)
  have "invoke H oa cb (dequeued k c) h
      = foldl (perform oa)
          ((dequeued k c)\<lparr>invoked := invoked (dequeued k c) @ [(h, cb)], world := w'\<rparr>) calls"
    unfolding invoke_def w hc by simp
  also have "\<dots> = foldl (perform oa) (dequeued k ?c1) calls"
    by (simp only: a)
  also have "\<dots> = dequeued k (foldl (perform oa) ?c1 calls)"
    using b by (rule performs_dequeued)
  also have "\<dots> = dequeued k (invoke H oa cb c h)"
    using hc by (simp add: invoke_def)
  finally show ?thesis .
qed

lemma replay_append: "replay H oa (tr1 @ tr2) c = replay H oa tr2 (replay H oa tr1 c)"
  by (simp add: replay_def)

lemma replay_events: "\<exists>new. events (replay H oa tr c) = events c @ new"
proof (induction tr arbitrary: c)
  case Nil
  then show ?case by (simp add: replay_def)
next
  case (Cons x tr)
  obtain h cb where x: "x = (h, cb)" by (cases x)
  obtain n1 where n1: "events (invoke H oa cb c h) = events c @ n1"
    using invoke_events by blast
  obtain n2 where "events (replay H oa tr (invoke H oa cb c h)) = events (invoke H oa cb c h) @ n2"
    using Cons.IH by blast
  then show ?case by (simp add: replay_def x n1)
qed

lemma replay_invoked: "invoked (replay H oa tr c) = invoked c @ tr"
proof (induction tr arbitrary: c)
  case Nil
  then show ?case by (simp add: replay_def)
next
  case (Cons x tr)
  obtain h cb where x: "x = (h, cb)" by (cases x)
  have "invoked (replay H oa tr (invoke H oa cb c h)) = invoked (invoke H oa cb c h) @ tr"
    by (rule Cons.IH)
  then show ?case by (simp add: replay_def x invoke_invoked)
qed

lemma replay_dequeued:
  "k \<le> length (events c) \<Longrightarrow> replay H oa tr (dequeued k c) = dequeued k (replay H oa tr c)"
proof (induction tr arbitrary: c)
  case Nil
  then show ?case by (simp add: replay_def)
next
  case (Cons x tr)
  obtain h cb where x: "x = (h, cb)" by (cases x)
  obtain n1 where "events (invoke H oa cb c h) = events c @ n1"
    using invoke_events by blast
  then have "k \<le> length (events (invoke H oa cb c h))" using Cons.prems by simp
  from Cons.IH [OF this] show ?case
    using Cons.prems by (simp add: replay_def x invoke_dequeued)
qed

lemma call_all_replay: "call_all H oa hs cb c = replay H oa (map (\<lambda>h. (h, cb)) hs) c"
  by (simp add: call_all_def replay_def foldl_map)

lemma dispatch_replay: "dispatch H oa hs e c = replay H oa (event_calls hs e) c"
  by (cases e) (simp_all add: dispatch_def event_calls_def call_all_replay, simp_all add: replay_def)

lemma dispatch_calls_snoc:
  "dispatch_calls hs (D @ [e]) = dispatch_calls hs D @ event_calls hs e"
  by (simp add: dispatch_calls_def)

lemma flush_order_calls:
  "flush_order hs D = dispatch_calls hs D @ map (\<lambda>h. (h, OnAfterEventsDispatch)) hs"
  by (simp add: flush_order_def dispatch_calls_def)


lemma queued_mono: "\<exists>more. queued H oa c (D @ D') = queued H oa c D @ more"
proof -
  have "dispatch_calls (listeners c) (D @ D')
      = dispatch_calls (listeners c) D @ concat (map (event_calls (listeners c)) D')"
    by (simp add: dispatch_calls_def)
  then show ?thesis
    using replay_events [of H oa "concat (map (event_calls (listeners c)) D')"
        "replay H oa (dispatch_calls (listeners c) D) c"]
    by (simp add: queued_def replay_append)
qed

lemma emission_order_Nil: "emission_order H oa c []"
  by (simp add: emission_order_def)

lemma emission_order_snoc:
  assumes "emission_order H oa c D" "take (Suc (length D)) (queued H oa c D) = D @ [e]"
  shows "emission_order H oa c (D @ [e])"
  using assms by (simp add: emission_order_def list_all_iff)

lemma emission_order_prefix:
  "emission_order H oa c D \<Longrightarrow> take (length D) (queued H oa c D) = D"
proof (induction D rule: rev_induct)
  case Nil
  then show ?case by simp
next
  case (snoc e D)
  have t: "take (Suc (length D)) (queued H oa c D) = D @ [e]"
    using snoc.prems by (simp add: emission_order_def list_all_iff)
  obtain more where m: "queued H oa c (D @ [e]) = queued H oa c D @ more"
    using queued_mono by blast
  have "length (take (Suc (length D)) (queued H oa c D)) = Suc (length D)"
    by (simp only: t) simp
  then have "Suc (length D) \<le> length (queued H oa c D)" by simp
  then show ?case by (simp add: m t)
qed


lemma round_state_events:
  "events (round_state H oa c D) = drop (length D) (queued H oa c D)"
  by (simp add: round_state_def dequeued_def queued_def)

lemma round_step:
  assumes "take (Suc (length D)) (queued H oa c D) = D @ [e]"
  shows "events (round_state H oa c D) = e # drop (Suc (length D)) (queued H oa c D)"
    and "dispatch H oa (listeners c) e
           ((round_state H oa c D)\<lparr>events := drop (Suc (length D)) (queued H oa c D)\<rparr>)
         = round_state H oa c (D @ [e])"
proof -
  let ?R = "replay H oa (dispatch_calls (listeners c) D) c"
  let ?q = "queued H oa c D"
  have "length (take (Suc (length D)) ?q) = Suc (length D)"
    by (simp only: assms) simp
  then have len: "Suc (length D) \<le> length ?q" by simp
  have "take (Suc (length D)) ?q ! length D = e"
    by (simp only: assms) simp
  then have "?q ! length D = e" by simp
  moreover have "drop (length D) ?q = ?q ! length D # drop (Suc (length D)) ?q"
    using len by (intro Cons_nth_drop_Suc [symmetric]) simp
  ultimately show "events (round_state H oa c D) = e # drop (Suc (length D)) ?q"
    by (simp add: round_state_events)
  have "(round_state H oa c D)\<lparr>events := drop (Suc (length D)) ?q\<rparr>
      = dequeued (Suc (length D)) ?R"
    by (simp add: round_state_def dequeued_def queued_def)
  moreover have "dispatch H oa (listeners c) e (dequeued (Suc (length D)) ?R)
      = dequeued (Suc (length D)) (replay H oa (event_calls (listeners c) e) ?R)"
    unfolding dispatch_replay using len by (intro replay_dequeued) (simp add: queued_def)
  ultimately show "dispatch H oa (listeners c) e
           ((round_state H oa c D)\<lparr>events := drop (Suc (length D)) ?q\<rparr>)
         = round_state H oa c (D @ [e])"
    by (simp add: round_state_def dispatch_calls_snoc replay_append)
qed

lemma rounds_invariant:
  "emission_order H oa c D \<Longrightarrow>
   \<exists>D'. length D' \<le> n \<and> emission_order H oa c (D @ D')
      \<and> loop_rounds H oa (listeners c) n (round_state H oa c D) = round_state H oa c (D @ D')"
proof (induction n arbitrary: D)
  case 0
  then show ?case by (intro exI [of _ "[]"]) simp
next
  case (Suc n)
  show ?case
  proof (cases "events (round_state H oa c D)")
    case Nil
    with Suc.prems show ?thesis by (intro exI [of _ "[]"]) simp
  next
    case (Cons e es)
    let ?q = "queued H oa c D"
    have p: "take (length D) ?q = D"
      using Suc.prems by (rule emission_order_prefix)
    have d: "drop (length D) ?q = e # es"
      using Cons by (simp add: round_state_events)
    have "?q = D @ e # es"
      using append_take_drop_id [of "length D" ?q] by (simp only: p d)
    then have t: "take (Suc (length D)) ?q = D @ [e]" by simp
    have eo: "emission_order H oa c (D @ [e])"
      using Suc.prems t by (rule emission_order_snoc)
    from round_step [OF t] Cons
    have es: "es = drop (Suc (length D)) ?q"
      and st: "dispatch H oa (listeners c) e ((round_state H oa c D)\<lparr>events := es\<rparr>)
             = round_state H oa c (D @ [e])"
      by simp_all
    from Suc.IH [OF eo] obtain D' where D': "length D' \<le> n"
      "emission_order H oa c ((D @ [e]) @ D')"
      "loop_rounds H oa (listeners c) n (round_state H oa c (D @ [e]))
         = round_state H oa c ((D @ [e]) @ D')"
      by blast
    show ?thesis
      using D' Cons st by (intro exI [of _ "e # D'"]) simp
  qed
qed

lemma loop_link:
  "flush_loop H oa hs n c
     = (if events (loop_rounds H oa hs n c) = [] then Some (loop_rounds H oa hs n c) else None)"
  by (induction n arbitrary: c) (simp_all split: list.splits)

lemma drain_rounds:
  assumes "emission_order H oa c D" "drained H oa c D"
  shows "j \<le> length D \<Longrightarrow> length D - j \<le> n \<Longrightarrow>
         loop_rounds H oa (listeners c) n (round_state H oa c (take j D)) = round_state H oa c D"
proof (induction n arbitrary: j)
  case 0
  then show ?case by simp
next
  case (Suc n)
  have e0: "events (round_state H oa c D) = []"
    using assms(2) by (simp add: round_state_events drained_def)
  show ?case
  proof (cases "j = length D")
    case True
    then show ?thesis using e0 by simp
  next
    case False
    then have j: "j < length D" using Suc.prems by simp
    then have t: "take (Suc (length (take j D))) (queued H oa c (take j D)) = take j D @ [D ! j]"
      using assms(1) by (simp add: emission_order_def list_all_iff take_Suc_conv_app_nth)
    from round_step [OF t] j
    have "loop_rounds H oa (listeners c) (Suc n) (round_state H oa c (take j D))
        = loop_rounds H oa (listeners c) n (round_state H oa c (take (Suc j) D))"
      by (simp add: take_Suc_conv_app_nth)
    also have "\<dots> = round_state H oa c D"
      using j Suc.prems by (intro Suc.IH) simp_all
    finally show ?thesis .
  qed
qed

lemma flush_rounds:
  "flush H oa fuel c
     = (let c2 = loop_rounds H oa (listeners c) fuel
                   (call_all H oa (listeners c) OnBeforeEventsDispatch c)
        in if events c2 = [] then Some (call_all H oa (listeners c) OnAfterEventsDispatch c2)
           else None)"
  by (simp add: flush_def Let_def slice_copy loop_link)

lemma before_state:
  "call_all H oa (listeners c) OnBeforeEventsDispatch c = round_state H oa c []"
  by (simp add: call_all_replay round_state_def dispatch_calls_def dequeued_0)

lemma after_state:
  assumes "emission_order H oa c D"
  shows "call_all H oa (listeners c) OnAfterEventsDispatch (round_state H oa c D)
       = spec_flush H oa c D"
proof -
  have "length (take (length D) (queued H oa c D)) = length D"
    using emission_order_prefix [OF assms] by simp
  then have "length D \<le> length (events (replay H oa (dispatch_calls (listeners c) D) c))"
    by (simp add: queued_def)
  then show ?thesis
    by (simp add: call_all_replay round_state_def spec_flush_def flush_order_calls
        replay_append replay_dequeued)
qed

lemma drained_end:
  assumes "emission_order H oa c D" "events (round_state H oa c D) = []"
  shows "drained H oa c D"
proof -
  have "take (length D) (queued H oa c D) @ drop (length D) (queued H oa c D) = D"
    using emission_order_prefix [OF assms(1)] assms(2) by (simp add: round_state_events)
  then show ?thesis by (simp add: drained_def)
qed

lemma spec_flush_invoked:
  "invoked (spec_flush H oa c D) = invoked c @ flush_order (listeners c) D"
  by (simp add: spec_flush_def dequeued_def replay_invoked)

lemma round_state_invoked:
  "invoked (round_state H oa c D) = invoked c @ dispatch_calls (listeners c) D"
  by (simp add: round_state_def dequeued_def replay_invoked)

lemma drained_emitted: "drained H oa c D \<Longrightarrow> \<exists>emitted. D = events c @ emitted"
  using replay_events [of H oa "dispatch_calls (listeners c) D" c]
  by (auto simp: drained_def queued_def)


lemma performs_scrolls:
  "(\<forall>e. EmitSoon e \<in> set calls \<longrightarrow> is_scroll e) \<Longrightarrow>
   \<exists>new. events (foldl (perform oa) c calls) = events c @ new \<and> (\<forall>e \<in> set new. is_scroll e)"
proof (induction calls arbitrary: c)
  case Nil
  then show ?case by simp
next
  case (Cons call calls)
  have "\<exists>n1. events (perform oa c call) = events c @ n1 \<and> (\<forall>e \<in> set n1. is_scroll e)"
    using Cons.prems
    by (cases call)
      (simp_all add: perform_def addEventHandler_def removeEventHandler_def emitSoon_def)
  then obtain n1 where n1: "events (perform oa c call) = events c @ n1" "\<forall>e \<in> set n1. is_scroll e"
    by blast
  obtain n2 where n2:
    "events (foldl (perform oa) (perform oa c call) calls) = events (perform oa c call) @ n2"
    "\<forall>e \<in> set n2. is_scroll e"
    using Cons.IH [of "perform oa c call"] Cons.prems by auto
  show ?case
    using n1 n2 by (intro exI [of _ "n1 @ n2"]) auto
qed

lemma invoke_scrolls:
  assumes "queues_scrolls_only H"
  shows "\<exists>new. events (invoke H oa cb c h) = events c @ new \<and> (\<forall>e \<in> set new. is_scroll e)"
proof -
  obtain w' calls where hc: "H h cb (world c) = (w', calls)" by (cases "H h cb (world c)")
  have "\<forall>e. EmitSoon e \<in> set calls \<longrightarrow> is_scroll e"
    using assms hc unfolding queues_scrolls_only_def by (metis snd_conv)
  from performs_scrolls [OF this, of oa "c\<lparr>invoked := invoked c @ [(h, cb)], world := w'\<rparr>"]
  show ?thesis by (simp add: invoke_def hc)
qed

lemma replay_scrolls:
  assumes "queues_scrolls_only H"
  shows "\<exists>new. events (replay H oa tr c) = events c @ new \<and> (\<forall>e \<in> set new. is_scroll e)"
proof (induction tr arbitrary: c)
  case Nil
  then show ?case by (simp add: replay_def)
next
  case (Cons x tr)
  obtain h cb where x: "x = (h, cb)" by (cases x)
  obtain n1 where n1: "events (invoke H oa cb c h) = events c @ n1" "\<forall>e \<in> set n1. is_scroll e"
    using invoke_scrolls [OF assms] by blast
  obtain n2 where n2:
    "events (replay H oa tr (invoke H oa cb c h)) = events (invoke H oa cb c h) @ n2"
    "\<forall>e \<in> set n2. is_scroll e"
    using Cons.IH by blast
  show ?case
    using n1 n2 by (intro exI [of _ "n1 @ n2"]) (auto simp: replay_def x)
qed

lemma loud_scrolls: "\<forall>e \<in> set new. is_scroll e \<Longrightarrow> loud (es @ new) = loud es"
  by (induction new) (simp_all add: loud_def)

lemma rounds_end:
  assumes "queues_scrolls_only H"
  shows "\<exists>n. events (loop_rounds H oa hs n c) = []"
proof -
  have "wf (inv_image (less_than <*lex*> less_than)
             (\<lambda>c :: 'a list_view_context. (loud (events c), length (events c))))"
    by (intro wf_inv_image wf_lex_prod wf_less_than)
  then show ?thesis
  proof (induct c rule: wf_induct_rule)
    case (less c)
    show ?case
    proof (cases "events c")
      case Nil
      then have "events (loop_rounds H oa hs 0 c) = []" by simp
      then show ?thesis by blast
    next
      case (Cons e es)
      let ?c1 = "dispatch H oa hs e (c\<lparr>events := es\<rparr>)"
      obtain new where new: "events ?c1 = es @ new" "\<forall>e' \<in> set new. is_scroll e'"
        using replay_scrolls [OF assms, of oa "event_calls hs e" "c\<lparr>events := es\<rparr>"]
        by (auto simp: dispatch_replay)
      have "(?c1, c) \<in> inv_image (less_than <*lex*> less_than)
             (\<lambda>c :: 'a list_view_context. (loud (events c), length (events c)))"
      proof (cases "is_scroll e")
        case True
        then have "?c1 = c\<lparr>events := es\<rparr>"
          by (cases e) (simp_all add: dispatch_def is_scroll_def)
        then show ?thesis using True Cons by (simp add: loud_def)
      next
        case False
        then show ?thesis using new Cons by (simp add: loud_scrolls) (simp add: loud_def)
      qed
      from less [OF this] obtain n where "events (loop_rounds H oa hs n ?c1) = []" by blast
      then have "events (loop_rounds H oa hs (Suc n) c) = []"
        using Cons by simp
      then show ?thesis by blast
    qed
  qed
qed

lemma scrolls_drained:
  assumes "queues_scrolls_only H"
  shows "\<exists>D. emission_order H oa c D \<and> drained H oa c D"
proof -
  obtain n where n: "events (loop_rounds H oa (listeners c) n (round_state H oa c [])) = []"
    using rounds_end [OF assms] by blast
  obtain D where D: "emission_order H oa c D"
    "loop_rounds H oa (listeners c) n (round_state H oa c []) = round_state H oa c D"
    using rounds_invariant [where D = "[]" and n = n and H = H and oa = oa and c = c,
        OF emission_order_Nil] by auto
  then have "drained H oa c D"
    using n by (intro drained_end) simp_all
  with D(1) show ?thesis by blast
qed

lemma flush_returns:
  assumes "flush H oa fuel c = Some c'"
  shows "\<exists>D. length D \<le> fuel \<and> emission_order H oa c D \<and> drained H oa c D
           \<and> c' = spec_flush H oa c D"
proof -
  let ?c2 = "loop_rounds H oa (listeners c) fuel (round_state H oa c [])"
  from assms have e: "events ?c2 = []"
    and c': "c' = call_all H oa (listeners c) OnAfterEventsDispatch ?c2"
    by (simp_all add: flush_rounds before_state Let_def split: if_splits)
  obtain D where D: "length D \<le> fuel" "emission_order H oa c D" "?c2 = round_state H oa c D"
    using rounds_invariant [where D = "[]" and n = fuel and H = H and oa = oa and c = c,
        OF emission_order_Nil] by auto
  have "drained H oa c D"
    using D e by (intro drained_end) simp_all
  moreover have "c' = spec_flush H oa c D"
    using c' D by (simp add: after_state)
  ultimately show ?thesis using D by blast
qed

lemma drained_flush:
  assumes "emission_order H oa c D" "drained H oa c D" "length D \<le> fuel"
  shows "flush H oa fuel c = Some (spec_flush H oa c D)"
proof -
  have "loop_rounds H oa (listeners c) fuel (round_state H oa c (take 0 D)) = round_state H oa c D"
    using assms by (intro drain_rounds) simp_all
  moreover have "events (round_state H oa c D) = []"
    using assms(2) by (simp add: round_state_events drained_def)
  ultimately show ?thesis
    using assms(1) by (simp add: flush_rounds before_state Let_def after_state)
qed

lemma rounds_order:
  "\<exists>D. length D \<le> n \<and> emission_order H oa c D
      \<and> loop_rounds H oa (listeners c) n (call_all H oa (listeners c) OnBeforeEventsDispatch c)
          = round_state H oa c D"
  using rounds_invariant [where D = "[]" and n = n and H = H and oa = oa and c = c,
      OF emission_order_Nil] by (simp add: before_state)

lemma queues_scrolls_only_ListView: "queues_scrolls_only ListView_listeners"
proof -
  have "is_scroll e" if "Layout_listener cb l = (l', calls)" "EmitSoon e \<in> set calls"
    for e cb l l' calls
    using that Layout_listener_calls [of cb l] by (auto simp: is_scroll_def)
  then show ?thesis
    by (auto simp: queues_scrolls_only_def ListView_listeners_def ListView_listener_def
        split: prod.splits callback.splits if_splits)
qed

text \<open>
  Claim C5. Every call of \<open>flush()\<close> works on the listeners registered when it began,
  in their order of registration, whatever the callbacks register, remove or queue while
  it runs.

  A flush that returns has invoked \<open>onBeforeEventsDispatch\<close> on every one of them,
  then, for every event of a sequence \<open>D\<close> in turn, the matching callback on every one
  of them, then \<open>onAfterEventsDispatch\<close> on every one of them, and nothing else. The
  sequence \<open>D\<close> is in emission order: it begins with the events queued before the flush,
  each of its events was the next event ever queued when the events before it had been
  dispatched, and no further event had been queued when the "after" pass began. The
  context the flush leaves is the one these callbacks leave, with \<open>D\<close> taken from the
  queue; what the "after" pass queues stays queued.

  Conversely, whenever such a sequence \<open>D\<close> exists the flush returns, after
  \<open>length D\<close> rounds of its loop. It exists for every listener table whose callbacks
  queue scroll events only, as those of the view and of its layout engine do. (With
  callbacks that keep queuing events for which listeners are called, the loop of the
  source does not end and the "after" pass is never reached.)

  Whether or not the flush returns, after any number of rounds of its loop the callbacks
  invoked so far are the "before" callbacks and then those for the events dispatched so
  far, which are in emission order; the last conjunct reads \<open>flush\<close> off these rounds.
\<close>

theorem flush_snapshot_order:
  "(\<forall>fuel c'. flush H oa fuel c = Some c' \<longrightarrow>
      (\<exists>D. length D \<le> fuel \<and> emission_order H oa c D \<and> drained H oa c D
          \<and> c' = spec_flush H oa c D
          \<and> invoked c' = invoked c @ flush_order (listeners c) D
          \<and> (\<exists>emitted. D = events c @ emitted)))
   \<and> (\<forall>D fuel. emission_order H oa c D \<and> drained H oa c D \<and> length D \<le> fuel \<longrightarrow>
        flush H oa fuel c = Some (spec_flush H oa c D))
   \<and> (queues_scrolls_only H \<longrightarrow> (\<exists>D. emission_order H oa c D \<and> drained H oa c D))
   \<and> (\<forall>n. \<exists>D. length D \<le> n \<and> emission_order H oa c D
          \<and> loop_rounds H oa (listeners c) n
                (call_all H oa (listeners c) OnBeforeEventsDispatch c)
              = round_state H oa c D
          \<and> invoked (round_state H oa c D) = invoked c @ dispatch_calls (listeners c) D)
   \<and> (\<forall>fuel. flush H oa fuel c
          = (let c2 = loop_rounds H oa (listeners c) fuel
                        (call_all H oa (listeners c) OnBeforeEventsDispatch c)
             in if events c2 = []
                then Some (call_all H oa (listeners c) OnAfterEventsDispatch c2) else None))"
proof (intro conjI allI impI)
  fix fuel c'
  assume "flush H oa fuel c = Some c'"
  from flush_returns [OF this] obtain D where D: "length D \<le> fuel" "emission_order H oa c D"
    "drained H oa c D" "c' = spec_flush H oa c D" by blast
  moreover have "invoked c' = invoked c @ flush_order (listeners c) D"
    by (simp add: D(4) spec_flush_invoked)
  moreover have "\<exists>emitted. D = events c @ emitted"
    using D(3) by (rule drained_emitted)
  ultimately show "\<exists>D. length D \<le> fuel \<and> emission_order H oa c D \<and> drained H oa c D
          \<and> c' = spec_flush H oa c D
          \<and> invoked c' = invoked c @ flush_order (listeners c) D
          \<and> (\<exists>emitted. D = events c @ emitted)"
    by blast
next
  fix D fuel
  assume "emission_order H oa c D \<and> drained H oa c D \<and> length D \<le> fuel"
  then show "flush H oa fuel c = Some (spec_flush H oa c D)"
    by (intro drained_flush) simp_all
next
  assume "queues_scrolls_only H"
  then show "\<exists>D. emission_order H oa c D \<and> drained H oa c D"
    by (rule scrolls_drained)
next
  fix n
  from rounds_order [where n = n and H = H and oa = oa and c = c] obtain D where "length D \<le> n" "emission_order H oa c D"
    "loop_rounds H oa (listeners c) n (call_all H oa (listeners c) OnBeforeEventsDispatch c)
       = round_state H oa c D"
    by blast
  then show "\<exists>D. length D \<le> n \<and> emission_order H oa c D
          \<and> loop_rounds H oa (listeners c) n
                (call_all H oa (listeners c) OnBeforeEventsDispatch c)
              = round_state H oa c D
          \<and> invoked (round_state H oa c D) = invoked c @ dispatch_calls (listeners c) D"
    using round_state_invoked by blast
next
  fix fuel
  show "flush H oa fuel c
          = (let c2 = loop_rounds H oa (listeners c) fuel
                        (call_all H oa (listeners c) OnBeforeEventsDispatch c)
             in if events c2 = []
                then Some (call_all H oa (listeners c) OnAfterEventsDispatch c2) else None)"
    by (rule flush_rounds)
qed

theorem flush_snapshot_order_witness:
  "(\<exists>c'. flush demo_listeners (\<lambda>w. w) 3
            \<lparr>listeners = [0, 1],
             events = [DimensionChanged \<lparr>dim_width = 500, dim_height = 500\<rparr>],
             invoked = [], world = ()\<rparr> = Some c'
        \<and> listeners c' = [1, 2]
        \<and> invoked c'
            = [(0, OnBeforeEventsDispatch), (1, OnBeforeEventsDispatch),
               (0, OnDimensionChanged \<lparr>dim_width = 500, dim_height = 500\<rparr>),
               (1, OnDimensionChanged \<lparr>dim_width = 500, dim_height = 500\<rparr>),
               (0, OnItemsChanged \<lparr>versionId = 2, changedStart = 0, changed = [],
                                    insertStart = 0, inserted = [20],
                                    deleteStart = 0, deleteCnt = 0\<rparr>),
               (1, OnItemsChanged \<lparr>versionId = 2, changedStart = 0, changed = [],
                                    insertStart = 0, inserted = [20],
                                    deleteStart = 0, deleteCnt = 0\<rparr>),
               (0, OnAfterEventsDispatch), (1, OnAfterEventsDispatch)]
        \<and> (\<exists>D. length D \<le> 3 \<and> invoked c' = flush_order [0, 1] D))
   \<and> queues_scrolls_only ListView_listeners
   \<and> (\<exists>D c'. flush ListView_listeners scheduleRender (length D)
                 (new_ListView \<lparr>dim_width = 500, dim_height = 200\<rparr> five_items) = Some c'
          \<and> invoked c' = flush_order [view_lid, layout_lid] D)"
proof -
  let ?c = "\<lparr>listeners = [0, 1],
             events = [DimensionChanged \<lparr>dim_width = 500, dim_height = 500\<rparr>],
             invoked = [], world = ()\<rparr>"
  let ?D = "[DimensionChanged \<lparr>dim_width = 500, dim_height = 500\<rparr>,
             Scroll \<lparr>ev_vertical = True, ev_horizontal = False,
                     ev_scrollTop = 0, ev_scrollLeft = 0\<rparr>,
             ItemsChanged \<lparr>versionId = 2, changedStart = 0, changed = [],
                            insertStart = 0, inserted = [20],
                            deleteStart = 0, deleteCnt = 0\<rparr>]"
  have eo: "emission_order demo_listeners (\<lambda>w. w) ?c ?D" by code_simp
  have dr: "drained demo_listeners (\<lambda>w. w) ?c ?D" by code_simp
  note demo = flush_snapshot_order [of demo_listeners "\<lambda>w. w" ?c]
  have "emission_order demo_listeners (\<lambda>w. w) ?c ?D \<and> drained demo_listeners (\<lambda>w. w) ?c ?D
      \<and> length ?D \<le> 3"
    using eo dr by simp
  then have f: "flush demo_listeners (\<lambda>w. w) 3 ?c
      = Some (spec_flush demo_listeners (\<lambda>w. w) ?c ?D)"
    by (rule demo [THEN conjunct2, THEN conjunct1, rule_format])
  have l: "listeners (spec_flush demo_listeners (\<lambda>w. w) ?c ?D) = [1, 2]" by code_simp
  have i: "invoked (spec_flush demo_listeners (\<lambda>w. w) ?c ?D)
            = [(0, OnBeforeEventsDispatch), (1, OnBeforeEventsDispatch),
               (0, OnDimensionChanged \<lparr>dim_width = 500, dim_height = 500\<rparr>),
               (1, OnDimensionChanged \<lparr>dim_width = 500, dim_height = 500\<rparr>),
               (0, OnItemsChanged \<lparr>versionId = 2, changedStart = 0, changed = [],
                                    insertStart = 0, inserted = [20],
                                    deleteStart = 0, deleteCnt = 0\<rparr>),
               (1, OnItemsChanged \<lparr>versionId = 2, changedStart = 0, changed = [],
                                    insertStart = 0, inserted = [20],
                                    deleteStart = 0, deleteCnt = 0\<rparr>),
               (0, OnAfterEventsDispatch), (1, OnAfterEventsDispatch)]"
    by code_simp
  from demo [THEN conjunct1, rule_format, OF f]
  obtain D' where "length D' \<le> 3"
    "invoked (spec_flush demo_listeners (\<lambda>w. w) ?c ?D) = invoked ?c @ flush_order (listeners ?c) D'"
    by blast
  then have "\<exists>D. length D \<le> 3
        \<and> invoked (spec_flush demo_listeners (\<lambda>w. w) ?c ?D) = flush_order [0, 1] D"
    by auto
  with f l i have a: "\<exists>c'. flush demo_listeners (\<lambda>w. w) 3 ?c = Some c'
        \<and> listeners c' = [1, 2]
        \<and> invoked c'
            = [(0, OnBeforeEventsDispatch), (1, OnBeforeEventsDispatch),
               (0, OnDimensionChanged \<lparr>dim_width = 500, dim_height = 500\<rparr>),
               (1, OnDimensionChanged \<lparr>dim_width = 500, dim_height = 500\<rparr>),
               (0, OnItemsChanged \<lparr>versionId = 2, changedStart = 0, changed = [],
                                    insertStart = 0, inserted = [20],
                                    deleteStart = 0, deleteCnt = 0\<rparr>),
               (1, OnItemsChanged \<lparr>versionId = 2, changedStart = 0, changed = [],
                                    insertStart = 0, inserted = [20],
                                    deleteStart = 0, deleteCnt = 0\<rparr>),
               (0, OnAfterEventsDispatch), (1, OnAfterEventsDispatch)]
        \<and> (\<exists>D. length D \<le> 3 \<and> invoked c' = flush_order [0, 1] D)"
    by simp
  let ?v = "new_ListView \<lparr>dim_width = 500, dim_height = 200\<rparr> five_items"
  have q: "queues_scrolls_only ListView_listeners" by (rule queues_scrolls_only_ListView)
  have lv: "listeners ?v = [view_lid, layout_lid]" "invoked ?v = []"
    by (simp_all add: new_ListView_def Let_def addEventHandler_def new_ListViewContext_def
        acceptDimension_def emitSoon_def)
  note view = flush_snapshot_order [of ListView_listeners scheduleRender ?v]
  from view [THEN conjunct2, THEN conjunct2, THEN conjunct1, rule_format, OF q]
  obtain D where D: "emission_order ListView_listeners scheduleRender ?v D"
    "drained ListView_listeners scheduleRender ?v D"
    by blast
  then have "emission_order ListView_listeners scheduleRender ?v D
      \<and> drained ListView_listeners scheduleRender ?v D \<and> length D \<le> length D"
    by simp
  then have "flush ListView_listeners scheduleRender (length D) ?v
      = Some (spec_flush ListView_listeners scheduleRender ?v D)"
    by (rule view [THEN conjunct2, THEN conjunct1, rule_format])
  moreover have "invoked (spec_flush ListView_listeners scheduleRender ?v D)
      = flush_order [view_lid, layout_lid] D"
    by (simp add: spec_flush_invoked lv)
  ultimately have b: "\<exists>D c'. flush ListView_listeners scheduleRender (length D) ?v = Some c'
          \<and> invoked c' = flush_order [view_lid, layout_lid] D"
    by blast
  from a q b show ?thesis by blast
qed

section \<open>At most one rendering callback; disposal\<close>

lemma one_pending_scheduleRender: "one_pending v \<Longrightarrow> one_pending (scheduleRender v)"
  by (auto simp: one_pending_def scheduleRender_def split: option.splits)

lemma one_pending_perform:
  "one_pending (world c) \<Longrightarrow> one_pending (world (perform scheduleRender c call))"
  by (cases call)
     (simp_all add: perform_def addEventHandler_def removeEventHandler_def emitSoon_def
        one_pending_scheduleRender)

lemma one_pending_performs:
  "one_pending (world c) \<Longrightarrow> one_pending (world (foldl (perform scheduleRender) c calls))"
  by (induction calls arbitrary: c) (simp_all add: one_pending_perform)

lemma one_pending_invoke:
  assumes "keeps_schedule H" and "one_pending (world c)"
  shows "one_pending (world (invoke H scheduleRender cb c h))"
proof -
  obtain v' calls where hc: "H h cb (world c) = (v', calls)" by (cases "H h cb (world c)")
  have "renderAnimationFrame v' = renderAnimationFrame (world c)"
    "scheduledFrames v' = scheduledFrames (world c)"
    using assms(1) hc unfolding keeps_schedule_def by (metis fst_conv)+
  then have "one_pending v'"
    using assms(2) by (simp add: one_pending_def)
  then have "one_pending (world (foldl (perform scheduleRender)
      (c\<lparr>invoked := invoked c @ [(h, cb)], world := v'\<rparr>) calls))"
    by (intro one_pending_performs) simp
  then show ?thesis by (simp add: invoke_def hc)
qed

lemma one_pending_call_all:
  "keeps_schedule H \<Longrightarrow> one_pending (world c) \<Longrightarrow>
   one_pending (world (call_all H scheduleRender hs cb c))"
  unfolding call_all_def
  by (induction hs arbitrary: c) (simp_all add: one_pending_invoke)

lemma one_pending_dispatch:
  "keeps_schedule H \<Longrightarrow> one_pending (world c) \<Longrightarrow>
   one_pending (world (dispatch H scheduleRender hs e c))"
  by (cases e) (simp_all add: dispatch_def one_pending_call_all)

lemma one_pending_flush_loop:
  "keeps_schedule H \<Longrightarrow> one_pending (world c) \<Longrightarrow>
   flush_loop H scheduleRender hs n c = Some c' \<Longrightarrow> one_pending (world c')"
proof (induction n arbitrary: c)
  case 0
  then show ?case by (simp split: if_splits)
next
  case (Suc n)
  show ?case
  proof (cases "events c")
    case Nil
    with Suc.prems show ?thesis by simp
  next
    case (Cons e es)
    let ?c1 = "dispatch H scheduleRender hs e (c\<lparr>events := es\<rparr>)"
    have "one_pending (world ?c1)"
      using Suc.prems(1,2) by (intro one_pending_dispatch) simp_all
    moreover have "flush_loop H scheduleRender hs n ?c1 = Some c'"
      using Suc.prems(3) Cons by simp
    ultimately show ?thesis
      using Suc.IH Suc.prems(1) by blast
  qed
qed

lemma one_pending_flush:
  assumes "keeps_schedule H" and "one_pending (world c)"
    and "flush H scheduleRender fuel c = Some c'"
  shows "one_pending (world c')"
proof -
  let ?hs = "js_slice_from (listeners c) 0"
  let ?c1 = "call_all H scheduleRender ?hs OnBeforeEventsDispatch c"
  obtain c2 where c2: "flush_loop H scheduleRender ?hs fuel ?c1 = Some c2"
    and c': "c' = call_all H scheduleRender ?hs OnAfterEventsDispatch c2"
    using assms(3) by (auto simp: flush_def Let_def split: option.splits)
  have "one_pending (world ?c1)"
    using assms(1,2) by (rule one_pending_call_all)
  with assms(1) have "one_pending (world c2)"
    using c2 by (rule one_pending_flush_loop)
  with assms(1) show ?thesis
    unfolding c' by (rule one_pending_call_all)
qed

lemma one_pending_new: "one_pending (world (new_ListView dim m))"
  by (simp add: new_ListView_def Let_def acceptDimension_def emitSoon_def addEventHandler_def
      new_ListViewContext_def scheduleRender_def one_pending_def)

lemma one_pending_emit:
  "one_pending (world c) \<Longrightarrow> one_pending (world (emitSoon scheduleRender e c))"
  by (simp add: emitSoon_def one_pending_scheduleRender)

lemma one_pending_dispose:
  "one_pending (world c) \<Longrightarrow> one_pending (world (ListView_dispose c))"
  by (auto simp: ListView_dispose_def Let_def removeEventHandler_def one_pending_def
      split: option.splits)

lemma one_pending_animationFrame:
  assumes "keeps_schedule H" and "one_pending (world c)"
    and "animationFrame H fuel now f c = Some c'"
  shows "one_pending (world c')"
proof -
  let ?c0 = "c\<lparr>world := (world c)\<lparr>scheduledFrames := remove1 f (scheduledFrames (world c)),
                                    renderAnimationFrame := None\<rparr>\<rparr>"
  from assms(3) have f: "f \<in> set (scheduledFrames (world c))"
    and r: "flushAccumulatedAndRenderNow H fuel now ?c0 = Some c'"
    by (simp_all add: animationFrame_def split: if_splits)
  have "scheduledFrames (world c) = [f]"
    using assms(2) f by (auto simp: one_pending_def split: option.splits)
  then have p0: "one_pending (world ?c0)"
    by (simp add: one_pending_def)
  from r obtain c1 where c1: "flush H scheduleRender fuel ?c0 = Some c1"
    and c': "c' = c1\<lparr>world := (world c1)
                  \<lparr>view_window := render (getRenderData (view_layout (world c1))) now
                                    (view_window (world c1))\<rparr>\<rparr>"
    by (auto simp: flushAccumulatedAndRenderNow_def split: option.splits)
  have "one_pending (world c1)"
    using assms(1) p0 c1 by (rule one_pending_flush)
  then show ?thesis
    by (simp add: c' one_pending_def)
qed

lemma one_pending_emits:
  "one_pending (world c) \<Longrightarrow>
   one_pending (world (foldl (\<lambda>c se. emitSoon scheduleRender (Scroll se) c) c evs))"
  by (induction evs arbitrary: c) (simp_all add: one_pending_emit)

lemma one_pending_scrollTo: "one_pending (world c) \<Longrightarrow> one_pending (world (scrollTo st c))"
proof -
  assume p: "one_pending (world c)"
  obtain s1 evs where se: "setScrollTop st (layout_scrollable (view_layout (world c))) = (s1, evs)"
    by (cases "setScrollTop st (layout_scrollable (view_layout (world c)))")
  have "one_pending (world (c\<lparr>world := (world c)
      \<lparr>view_layout := (view_layout (world c))\<lparr>layout_scrollable := s1\<rparr>\<rparr>\<rparr>))"
    using p by (simp add: one_pending_def)
  then show ?thesis
    unfolding scrollTo_def Let_def se prod.case by (rule one_pending_emits)
qed

lemma one_pending_wheel: "one_pending (world c) \<Longrightarrow> one_pending (world (wheel n t c))"
  by (simp add: wheel_def one_pending_def)

lemma one_pending_step:
  "keeps_schedule H \<Longrightarrow> one_pending (world c) \<Longrightarrow> view_step H c a = Some c'
   \<Longrightarrow> one_pending (world c')"
  by (cases a)
     (auto simp: view_step_def one_pending_emit one_pending_dispose one_pending_scrollTo
        one_pending_wheel intro: one_pending_animationFrame)

lemma one_pending_run:
  "keeps_schedule H \<Longrightarrow> one_pending (world c) \<Longrightarrow> run_view H c acts = Some c'
   \<Longrightarrow> one_pending (world c')"
proof (induction acts arbitrary: c)
  case Nil
  then show ?case by simp
next
  case (Cons a acts)
  from Cons.prems(3) obtain c1 where c1: "view_step H c a = Some c1" "run_view H c1 acts = Some c'"
    by (auto split: option.splits)
  have "one_pending (world c1)"
    using Cons.prems(1,2) c1(1) by (rule one_pending_step)
  with Cons.IH Cons.prems(1) c1(2) show ?case by blast
qed

text \<open>
  Claim C6. In every state a view reaches from its construction, through any events
  queued from outside or by its listeners, any callbacks fired and a disposal, at most one
  rendering callback is outstanding with the scheduler. While one is outstanding,
  \<open>emitSoon\<close> leaves it and the field that holds its handle as they are; and after any
  \<open>emitSoon\<close> exactly one is outstanding, so a new one is requested only when none is
  (the earlier one has fired or been cancelled).
\<close>

theorem at_most_one_pending_render:
  assumes "keeps_schedule H" and "run_view H (new_ListView dim m) acts = Some c"
  shows "length (scheduledFrames (world c)) \<le> 1
       \<and> (scheduledFrames (world c) \<noteq> [] \<longrightarrow>
            (\<forall>e. scheduledFrames (world (emitSoon scheduleRender e c)) = scheduledFrames (world c)
               \<and> renderAnimationFrame (world (emitSoon scheduleRender e c))
                   = renderAnimationFrame (world c)))
       \<and> (\<forall>e. length (scheduledFrames (world (emitSoon scheduleRender e c))) = 1)"
proof -
  have "one_pending (world c)"
    using assms(1) one_pending_new assms(2) by (rule one_pending_run)
  then show ?thesis
    by (auto simp: one_pending_def emitSoon_def scheduleRender_def split: option.splits)
qed

lemma keeps_schedule_ListView: "keeps_schedule ListView_listeners"
  by (simp add: keeps_schedule_def ListView_listeners_def split: prod.splits)

theorem at_most_one_pending_render_witness:
  "keeps_schedule ListView_listeners
   \<and> (\<exists>c. scrolled_view = Some c
        \<and> scheduledFrames (world c) = [2]
        \<and> length (scheduledFrames (world c)) \<le> 1
        \<and> (\<forall>e. scheduledFrames (world (emitSoon scheduleRender e c)) = [2]))"
proof -
  have "case scrolled_view of None \<Rightarrow> False | Some c \<Rightarrow> scheduledFrames (world c) = [2]"
    by code_simp
  then obtain c where c: "scrolled_view = Some c" "scheduledFrames (world c) = [2]"
    by (auto split: option.splits)
  from at_most_one_pending_render [OF keeps_schedule_ListView c(1) [unfolded scrolled_view_def]]
  have "length (scheduledFrames (world c)) \<le> 1"
    and "\<forall>e. scheduledFrames (world (emitSoon scheduleRender e c)) = scheduledFrames (world c)"
    using c(2) by auto
  with c keeps_schedule_ListView show ?thesis
    by auto
qed

text \<open>
  Claim C9, amended. When a view that has been running is disposed, the rendering callback
  it has requested, if any, is cancelled: no callback of the view remains outstanding, the
  field is cleared and no callback can fire afterwards. The rendered window is left as it
  is by \<open>dispose\<close>: the retained node, if any, stays in the retention slot and stays a
  child of the list container.
\<close>

theorem dispose_cancels_render:
  assumes "keeps_schedule H" and "run_view H (new_ListView dim m) acts = Some c"
  shows "renderAnimationFrame (world (ListView_dispose c)) = None
       \<and> scheduledFrames (world (ListView_dispose c)) = []
       \<and> (\<forall>fuel now f. animationFrame H fuel now f (ListView_dispose c) = None)
       \<and> view_window (world (ListView_dispose c)) = view_window (world c)"
proof -
  have "one_pending (world c)"
    using assms(1) one_pending_new assms(2) by (rule one_pending_run)
  then show ?thesis
    by (auto simp: one_pending_def ListView_dispose_def Let_def removeEventHandler_def
        animationFrame_def split: option.splits)
qed

theorem dispose_cancels_render_witness:
  "keeps_schedule ListView_listeners
   \<and> (\<exists>c. scrolled_view = Some c
        \<and> renderAnimationFrame (world c) = Some 2
        \<and> renderAnimationFrame (world (ListView_dispose c)) = None
        \<and> scheduledFrames (world (ListView_dispose c)) = []
        \<and> animationFrame ListView_listeners 5 6000 2 (ListView_dispose c) = None)"
proof -
  have "case scrolled_view of None \<Rightarrow> False | Some c \<Rightarrow> renderAnimationFrame (world c) = Some 2"
    by code_simp
  then obtain c where c: "scrolled_view = Some c" "renderAnimationFrame (world c) = Some 2"
    by (auto split: option.splits)
  from dispose_cancels_render [OF keeps_schedule_ListView c(1) [unfolded scrolled_view_def]]
  have "renderAnimationFrame (world (ListView_dispose c)) = None"
    and "scheduledFrames (world (ListView_dispose c)) = []"
    and "animationFrame ListView_listeners 5 6000 2 (ListView_dispose c) = None"
    by blast+
  with c keeps_schedule_ListView show ?thesis
    by blast
qed

text \<open>
  Claim C9, as stated, fails for the retained node: \<open>dispose\<close> does not touch the
  retention slot. In the view above the node of item 0 has been retained by the second
  callback; after \<open>dispose\<close> it is still in the slot and still a child of the list
  container.
\<close>

theorem dispose_keeps_retained_node_counterexample:
  "scrolled_view \<noteq> None
   \<and> scrollDomNode (view_window (world (the scrolled_view))) = Some 0
   \<and> scrollDomNode (view_window (world (ListView_dispose (the scrolled_view)))) = Some 0
   \<and> 0 \<in> set (children (view_window (world (ListView_dispose (the scrolled_view)))))"
  by code_simp

section \<open>The render pass\<close>

subsection \<open>What the parts of a render pass leave alone\<close>

lemma removeIfNotScrollDomNode_frame:
  "renderedItems (removeIfNotScrollDomNode b w n) = renderedItems w"
  "renderedItemsStart (removeIfNotScrollDomNode b w n) = renderedItemsStart w"
  "nextNode (removeIfNotScrollDomNode b w n) = nextNode w"
  "modelRendered (removeIfNotScrollDomNode b w n) = modelRendered w"
  "laidOut (removeIfNotScrollDomNode b w n) = laidOut w"
  by (simp_all add: removeIfNotScrollDomNode_def Let_def removeChild_def split: option.splits)

lemma removeAll_frame:
  "renderedItems (foldl (removeIfNotScrollDomNode b) w ns) = renderedItems w"
  "renderedItemsStart (foldl (removeIfNotScrollDomNode b) w ns) = renderedItemsStart w"
  "nextNode (foldl (removeIfNotScrollDomNode b) w ns) = nextNode w"
  "modelRendered (foldl (removeIfNotScrollDomNode b) w ns) = modelRendered w"
  "laidOut (foldl (removeIfNotScrollDomNode b) w ns) = laidOut w"
  by (induction ns arbitrary: w) (simp_all add: removeIfNotScrollDomNode_frame)

lemma removeLinesBefore_frame:
  "renderedItems (removeLinesBefore c w) = drop (nat c) (renderedItems w)"
  "renderedItemsStart (removeLinesBefore c w) = renderedItemsStart w"
  "nextNode (removeLinesBefore c w) = nextNode w"
  "modelRendered (removeLinesBefore c w) = modelRendered w"
  "laidOut (removeLinesBefore c w) = laidOut w"
  by (simp_all add: removeLinesBefore_def Let_def removeAll_frame)

lemma removeLinesAfter_frame:
  "renderedItems (removeLinesAfter c w)
     = take (nat (int (length (renderedItems w)) - c)) (renderedItems w)"
  "renderedItemsStart (removeLinesAfter c w) = renderedItemsStart w"
  "nextNode (removeLinesAfter c w) = nextNode w"
  "modelRendered (removeLinesAfter c w) = modelRendered w"
  "laidOut (removeLinesAfter c w) = laidOut w"
  by (simp_all add: removeLinesAfter_def Let_def removeAll_frame)

lemma cleanGarbage_frame:
  "renderedItems (cleanGarbage b w) = renderedItems w"
  "renderedItemsStart (cleanGarbage b w) = renderedItemsStart w"
  "nextNode (cleanGarbage b w) = nextNode w"
  "modelRendered (cleanGarbage b w) = modelRendered w"
  "laidOut (cleanGarbage b w) = laidOut w"
  by (simp_all add: cleanGarbage_def removeChild_def split: option.splits)

lemma insertLines_frame:
  "renderedItems (insertLinesBefore a b w)
     = replicate (nat (b - a + 1)) createLine @ renderedItems w"
  "renderedItems (insertLinesAfter a b w)
     = renderedItems w @ replicate (nat (b - a + 1)) createLine"
  "renderedItemsStart (insertLinesBefore a b w) = renderedItemsStart w"
  "renderedItemsStart (insertLinesAfter a b w) = renderedItemsStart w"
  "nextNode (insertLinesBefore a b w) = nextNode w"
  "nextNode (insertLinesAfter a b w) = nextNode w"
  "modelRendered (insertLinesBefore a b w) = modelRendered w"
  "modelRendered (insertLinesAfter a b w) = modelRendered w"
  "laidOut (insertLinesBefore a b w) = laidOut w"
  "laidOut (insertLinesAfter a b w) = laidOut w"
  by (simp_all add: insertLinesBefore_def insertLinesAfter_def)

lemma layoutUntouchedLine_log:
  "\<exists>es. layoutUntouchedLine dt dl w i = w\<lparr>laidOut := laidOut w @ es\<rparr>"
proof (cases "js_index (renderedItems w) i")
  case None
  then have "layoutUntouchedLine dt dl w i = w\<lparr>laidOut := laidOut w @ []\<rparr>"
    by (simp add: layoutUntouchedLine_def)
  then show ?thesis by blast
next
  case (Some line)
  show ?thesis
  proof (cases "domNode line")
    case None
    with Some have "layoutUntouchedLine dt dl w i = w\<lparr>laidOut := laidOut w @ []\<rparr>"
      by (simp add: layoutUntouchedLine_def)
    then show ?thesis by blast
  next
    case (Some n)
    with \<open>js_index (renderedItems w) i = Some line\<close> show ?thesis
      by (auto simp: layoutUntouchedLine_def layoutLine_def Let_def)
  qed
qed

lemma renderUntouchedLines_log:
  "\<exists>es. renderUntouchedLines a b dt dl w = w\<lparr>laidOut := laidOut w @ es\<rparr>"
proof -
  have "\<exists>es. foldl (layoutUntouchedLine dt dl) w xs = w\<lparr>laidOut := laidOut w @ es\<rparr>" for xs
  proof (induction xs arbitrary: w)
    case Nil
    have "foldl (layoutUntouchedLine dt dl) w [] = w\<lparr>laidOut := laidOut w @ []\<rparr>" by simp
    then show ?case by blast
  next
    case (Cons i xs)
    obtain e1 where e1: "layoutUntouchedLine dt dl w i = w\<lparr>laidOut := laidOut w @ e1\<rparr>"
      using layoutUntouchedLine_log by blast
    obtain e2 where "foldl (layoutUntouchedLine dt dl) (w\<lparr>laidOut := laidOut w @ e1\<rparr>) xs
        = (w\<lparr>laidOut := laidOut w @ e1\<rparr>)\<lparr>laidOut := laidOut (w\<lparr>laidOut := laidOut w @ e1\<rparr>) @ e2\<rparr>"
      using Cons.IH by blast
    then have "foldl (layoutUntouchedLine dt dl) w (i # xs) = w\<lparr>laidOut := laidOut w @ (e1 @ e2)\<rparr>"
      by (simp add: e1)
    then show ?case by blast
  qed
  then show ?thesis by (simp add: renderUntouchedLines_def)
qed

lemma renderUntouchedLines_frame:
  "renderedItems (renderUntouchedLines a b dt dl w) = renderedItems w"
  "renderedItemsStart (renderUntouchedLines a b dt dl w) = renderedItemsStart w"
  "nextNode (renderUntouchedLines a b dt dl w) = nextNode w"
  "modelRendered (renderUntouchedLines a b dt dl w) = modelRendered w"
  "children (renderUntouchedLines a b dt dl w) = children w"
  "scrollDomNode (renderUntouchedLines a b dt dl w) = scrollDomNode w"
  using renderUntouchedLines_log [of a b dt dl w] by auto

subsection \<open>The lines after the two edges\<close>

lemma leading_edge_lines:
  "renderedItems (render_leading_edge rd w)
     = (if renderedItemsStart w > startIndex rd
        then replicate (nat (min (startIndex rd + int (length (tops rd)) - 1)
                                 (renderedItemsStart w - 1) - startIndex rd + 1)) createLine
             @ renderedItems w
        else drop (nat (startIndex rd - renderedItemsStart w)) (renderedItems w))"
  by (auto simp: render_leading_edge_def Let_def insertLines_frame cleanGarbage_frame
      removeLinesBefore_frame min_def)

lemma leading_edge_frame:
  "renderedItemsStart (render_leading_edge rd w) = startIndex rd"
  "nextNode (render_leading_edge rd w) = nextNode w"
  "modelRendered (render_leading_edge rd w) = modelRendered w"
  "laidOut (render_leading_edge rd w) = laidOut w"
  by (auto simp: render_leading_edge_def Let_def insertLines_frame cleanGarbage_frame
      removeLinesBefore_frame)

lemma trailing_edge_lines:
  assumes "renderedItemsStart w = startIndex rd"
  shows "renderedItems (render_trailing_edge rd w)
     = take (length (tops rd)) (renderedItems w)
       @ replicate (length (tops rd) - length (renderedItems w)) createLine"
proof -
  let ?k = "length (tops rd)" and ?n = "length (renderedItems w)"
  consider "?n < ?k" | "?n > ?k" | "?n = ?k" by linarith
  then show ?thesis
  proof cases
    case 1
    then have "nat (int ?k - int ?n) = ?k - ?n" by simp
    with 1 assms show ?thesis
      by (simp add: render_trailing_edge_def Let_def insertLines_frame cleanGarbage_frame
          algebra_simps)
  next
    case 2
    then have "nat (int ?n - (int ?n - int ?k)) = ?k" by simp
    with 2 assms show ?thesis
      by (simp add: render_trailing_edge_def Let_def removeLinesAfter_frame algebra_simps)
  next
    case 3
    with assms show ?thesis
      by (simp add: render_trailing_edge_def Let_def)
  qed
qed

lemma trailing_edge_frame:
  "renderedItemsStart (render_trailing_edge rd w) = renderedItemsStart w"
  "nextNode (render_trailing_edge rd w) = nextNode w"
  "modelRendered (render_trailing_edge rd w) = modelRendered w"
  "laidOut (render_trailing_edge rd w) = laidOut w"
  by (auto simp: render_trailing_edge_def Let_def insertLines_frame cleanGarbage_frame
      removeLinesAfter_frame)

subsection \<open>Finishing a window of new lines\<close>

lemma setDomNodes_back_new:
  "length cs = k \<Longrightarrow>
   setDomNodes_back (replicate k (l, True)) (cs @ rest) = map (\<lambda>c. l\<lparr>domNode := Some c\<rparr>) cs"
proof (induction k arbitrary: cs)
  case 0
  then show ?case by simp
next
  case (Suc k)
  then obtain c cs' where cs: "cs = c # cs'" by (cases cs) auto
  with Suc show ?case by simp
qed

lemma setDomNodes_back_new0:
  "length cs = k \<Longrightarrow>
   setDomNodes_back (replicate k (l, True)) cs = map (\<lambda>c. l\<lparr>domNode := Some c\<rparr>) cs"
  using setDomNodes_back_new [of cs k l "[]"] by simp

lemma finish_new_lines:
  assumes "renderedItems w = replicate k createLine"
  shows "renderedItems (finishRendering e dt w) = map fresh_line [nextNode w..<nextNode w + k]"
    and "nextNode (finishRendering e dt w) = nextNode w + k"
    and "children (finishRendering e dt w)
           = (if k = 0 then children w
              else if e \<or> children w = [] then [nextNode w..<nextNode w + k]
              else children w @ [nextNode w..<nextNode w + k])"
    and "renderedItemsStart (finishRendering e dt w) = renderedItemsStart w"
    and "scrollDomNode (finishRendering e dt w) = scrollDomNode w"
proof -
  have fl: "(\<lambda>c. \<lparr>isDirty = False, domNode = Some c\<rparr>) = fresh_line"
    by (auto simp: fresh_line_def)
  have new: "wasNew_flags (renderedItems w) = replicate k True"
    and inv: "wasInvalid_flags (renderedItems w) = replicate k False"
    by (simp_all add: wasNew_flags_def wasInvalid_flags_def assms createLine_def)
  define w1 where "w1 = collectLinesHTML dt w"
  have w1: "renderedItems w1 = replicate k \<lparr>isDirty = False, domNode = None\<rparr>"
    "nextNode w1 = nextNode w" "children w1 = children w"
    "renderedItemsStart w1 = renderedItemsStart w" "scrollDomNode w1 = scrollDomNode w"
    by (simp_all add: w1_def collectLinesHTML_def Let_def assms createLine_def)
  define w2 where "w2 = insertNewLines e (replicate k True) w1"
  have w2: "renderedItems w2 = map fresh_line [nextNode w..<nextNode w + k]"
    "nextNode w2 = nextNode w + k"
    "children w2 = (if k = 0 then children w
              else if e \<or> children w = [] then [nextNode w..<nextNode w + k]
              else children w @ [nextNode w..<nextNode w + k])"
    "renderedItemsStart w2 = renderedItemsStart w" "scrollDomNode w2 = scrollDomNode w"
    by (cases "k = 0";
        simp add: w2_def insertNewLines_def Let_def w1 zip_replicate
          setDomNodes_back_new setDomNodes_back_new0 rev_map fl)+
  have fin: "finishRendering e dt w = w2"
    by (simp add: finishRendering_def Let_def new inv w2_def w1_def replaceInvalidLines_def)
  show "renderedItems (finishRendering e dt w) = map fresh_line [nextNode w..<nextNode w + k]"
    and "nextNode (finishRendering e dt w) = nextNode w + k"
    and "children (finishRendering e dt w)
           = (if k = 0 then children w
              else if e \<or> children w = [] then [nextNode w..<nextNode w + k]
              else children w @ [nextNode w..<nextNode w + k])"
    and "renderedItemsStart (finishRendering e dt w) = renderedItemsStart w"
    and "scrollDomNode (finishRendering e dt w) = scrollDomNode w"
    unfolding fin by (fact w2)+
qed

subsection \<open>A pass without overlap\<close>

lemma edges_no_overlap:
  assumes "no_overlap rd w"
  shows "renderedItems (render_trailing_edge rd (render_leading_edge rd w))
       = replicate (length (tops rd)) createLine"
proof -
  define k where "k = length (tops rd)"
  define s where "s = startIndex rd"
  define r where "r = renderedItemsStart w"
  define ls where "ls = renderedItems w"
  define L where "L = renderedItems (render_leading_edge rd w)"
  have no: "r + int (length ls) - 1 < s \<or> s + int k - 1 < r"
    using assms by (simp add: no_overlap_def Let_def k_def s_def r_def ls_def)
  have T: "renderedItems (render_trailing_edge rd (render_leading_edge rd w))
         = take k L @ replicate (k - length L) createLine"
    unfolding k_def L_def by (rule trailing_edge_lines) (simp add: leading_edge_frame)
  have Ldef: "L = (if r > s
        then replicate (nat (min (s + int k - 1) (r - 1) - s + 1)) createLine @ ls
        else drop (nat (s - r)) ls)"
    unfolding L_def k_def s_def r_def ls_def by (rule leading_edge_lines)
  have "take k L @ replicate (k - length L) createLine = replicate k createLine"
  proof (cases "r > s")
    case True
    show ?thesis
    proof (cases "s + int k - 1 < r")
      case True
      then have "nat (min (s + int k - 1) (r - 1) - s + 1) = k" by simp
      with \<open>r > s\<close> have "L = replicate k createLine @ ls" by (simp add: Ldef)
      then show ?thesis by simp
    next
      case False
      with no \<open>r > s\<close> have "ls = []" by simp
      define a where "a = nat (min (s + int k - 1) (r - 1) - s + 1)"
      have "a \<le> k" unfolding a_def by simp
      have "L = replicate a createLine" using \<open>r > s\<close> \<open>ls = []\<close> by (simp add: Ldef a_def)
      then have "take k L @ replicate (k - length L) createLine
          = replicate a createLine @ replicate (k - a) createLine"
        using \<open>a \<le> k\<close> by simp
      also have "\<dots> = replicate k createLine"
        using \<open>a \<le> k\<close> by (simp add: replicate_add [symmetric])
      finally show ?thesis .
    qed
  next
    case False
    show ?thesis
    proof (cases "r + int (length ls) - 1 < s")
      case True
      then have "length ls \<le> nat (s - r)" by simp
      with False have "L = []" by (simp add: Ldef)
      then show ?thesis by simp
    next
      case False
      with no \<open>\<not> r > s\<close> have "k = 0" by simp
      then show ?thesis by simp
    qed
  qed
  with T show ?thesis by (simp add: k_def)
qed

lemma no_overlap_untouched:
  "no_overlap rd (renderUntouchedLines a b dt dl w) = no_overlap rd w"
  by (simp add: no_overlap_def renderUntouchedLines_frame)

subsection \<open>Eviction through the retention path\<close>

lemma filter_absent: "x \<notin> set xs \<Longrightarrow> xs = filter (\<lambda>c. c \<noteq> x) xs"
  by (induction xs) auto

lemma remove1_filter: "distinct xs \<Longrightarrow> remove1 x xs = filter (\<lambda>c. c \<noteq> x) xs"
  by (induction xs) (auto intro: filter_absent)

lemma removeIfNot_children:
  "children (removeIfNotScrollDomNode b w n)
     = (if lastScrollTime w n = 0 then remove1 n (children w)
        else case scrollDomNode w of
               None \<Rightarrow> children w
             | Some other \<Rightarrow> if lastScrollTime w other > lastScrollTime w n
                              then remove1 n (children w) else remove1 other (children w))"
  by (simp add: removeIfNotScrollDomNode_def Let_def removeChild_def getScrollDomNodeTime_def
      split: option.splits)

lemma removeIfNot_slot:
  "scrollDomNode (removeIfNotScrollDomNode b w n)
     = (if lastScrollTime w n = 0 then scrollDomNode w
        else case scrollDomNode w of
               None \<Rightarrow> Some n
             | Some other \<Rightarrow> if lastScrollTime w other > lastScrollTime w n
                              then Some other else Some n)"
  by (simp add: removeIfNotScrollDomNode_def Let_def removeChild_def getScrollDomNodeTime_def
      split: option.splits)

lemma removeIfNot_time:
  "lastScrollTime (removeIfNotScrollDomNode b w n) = lastScrollTime w"
  by (simp add: removeIfNotScrollDomNode_def Let_def removeChild_def getScrollDomNodeTime_def
      split: option.splits)

lemma evict_props:
  "distinct (children w) \<Longrightarrow> distinct ns \<Longrightarrow> (\<forall>r. scrollDomNode w = Some r \<longrightarrow> r \<notin> set ns) \<Longrightarrow>
   evicts ns w (foldl (removeIfNotScrollDomNode b) w ns)
   \<and> (\<forall>m r. scrollDomNode (foldl (removeIfNotScrollDomNode b) w ns) = Some m
         \<longrightarrow> scrollDomNode w = Some r \<longrightarrow> lastScrollTime w r \<le> lastScrollTime w m)"
proof (induction ns arbitrary: w)
  case Nil
  then show ?case by (auto simp: evicts_def intro: filter_id_conv [THEN iffD2, symmetric])
next
  case (Cons n ns)
  let ?w1 = "removeIfNotScrollDomNode b w n"
  let ?w' = "foldl (removeIfNotScrollDomNode b) ?w1 ns"
  have d1: "distinct (children ?w1)"
    using Cons.prems(1) by (simp add: removeIfNot_children split: option.splits)
  have d2: "distinct ns" and nn: "n \<notin> set ns" using Cons.prems(2) by auto
  have s1: "\<forall>r. scrollDomNode ?w1 = Some r \<longrightarrow> r \<notin> set ns"
    using Cons.prems(3) nn by (auto simp: removeIfNot_slot split: option.splits if_splits)
  note IH = Cons.IH [OF d1 d2 s1]
  have t1: "lastScrollTime ?w1 = lastScrollTime w" by (rule removeIfNot_time)
  from IH have C: "children ?w'
        = filter (\<lambda>c. (c \<notin> set ns \<and> Some c \<noteq> scrollDomNode ?w1) \<or> scrollDomNode ?w' = Some c)
            (children ?w1)"
    and S: "\<And>m. scrollDomNode ?w' = Some m \<Longrightarrow>
             (scrollDomNode ?w1 = Some m \<or> (m \<in> set ns \<and> lastScrollTime w m \<noteq> 0))
           \<and> (\<forall>x \<in> set ns. lastScrollTime w x \<noteq> 0 \<longrightarrow> lastScrollTime w x \<le> lastScrollTime w m)
           \<and> (\<forall>r. scrollDomNode ?w1 = Some r \<longrightarrow> lastScrollTime w r \<le> lastScrollTime w m)"
    and T: "lastScrollTime ?w' = lastScrollTime w"
    by (auto simp: evicts_def t1)
  have r0: "\<And>r. scrollDomNode w = Some r \<Longrightarrow> r \<noteq> n \<and> r \<notin> set ns"
    using Cons.prems(3) by auto
  have ch: "children ?w'
        = filter (\<lambda>c. (c \<notin> set (n # ns) \<and> Some c \<noteq> scrollDomNode w) \<or> scrollDomNode ?w' = Some c)
            (children w)"
    unfolding C removeIfNot_children removeIfNot_slot
    using Cons.prems(1) nn r0 S
    by (auto simp: remove1_filter removeIfNot_slot split: option.splits if_splits
        intro!: filter_cong)
  have sl: "\<And>m. scrollDomNode ?w' = Some m \<Longrightarrow>
             (scrollDomNode w = Some m \<or> (m \<in> set (n # ns) \<and> lastScrollTime w m \<noteq> 0))
           \<and> (\<forall>x \<in> set (n # ns). lastScrollTime w x \<noteq> 0 \<longrightarrow> lastScrollTime w x \<le> lastScrollTime w m)
           \<and> (\<forall>r. scrollDomNode w = Some r \<longrightarrow> lastScrollTime w r \<le> lastScrollTime w m)"
    using S by (fastforce simp: removeIfNot_slot split: option.splits if_splits)
  show ?case
    using ch sl T by (simp add: evicts_def)
qed

lemma cleanGarbage_cases:
  "cleanGarbage b w = w
   \<or> (\<exists>r. scrollDomNode w = Some r
          \<and> cleanGarbage b w = (removeChild r w)\<lparr>scrollDomNode := None\<rparr>)"
  by (auto simp: cleanGarbage_def split: option.splits)

lemma evicts_refl: "evicts [] w w"
  by (auto simp: evicts_def filter_id_conv)

lemma evicts_distinct: "evicts ns w w' \<Longrightarrow> distinct (children w) \<Longrightarrow> distinct (children w')"
  by (simp add: evicts_def)

lemma evicts_cleanGarbage:
  assumes "evicts ns w w1" "distinct (children w)"
  shows "evicts ns w (cleanGarbage b w1)"
proof -
  have d: "distinct (children w1)" using assms by (rule evicts_distinct)
  from cleanGarbage_cases [of b w1] show ?thesis
  proof
    assume "cleanGarbage b w1 = w1"
    with assms show ?thesis by simp
  next
    assume "\<exists>r. scrollDomNode w1 = Some r
          \<and> cleanGarbage b w1 = (removeChild r w1)\<lparr>scrollDomNode := None\<rparr>"
    then obtain r where r: "scrollDomNode w1 = Some r"
      and c: "cleanGarbage b w1 = (removeChild r w1)\<lparr>scrollDomNode := None\<rparr>" by blast
    from assms(1) r have rr: "scrollDomNode w = Some r \<or> r \<in> set ns"
      by (auto simp: evicts_def)
    have "children (cleanGarbage b w1) = filter (\<lambda>c. c \<noteq> r) (children w1)"
      using d by (simp add: c removeChild_def remove1_filter)
    also have "\<dots> = filter (\<lambda>c. c \<notin> set ns \<and> Some c \<noteq> scrollDomNode w) (children w)"
      using assms(1) r rr by (auto simp: evicts_def intro!: filter_cong)
    finally show ?thesis
      using assms(1) by (simp add: evicts_def c removeChild_def)
  qed
qed

lemma evicts_after_cleanGarbage:
  assumes "distinct (children w)" "distinct ns" "\<forall>r. scrollDomNode w = Some r \<longrightarrow> r \<notin> set ns"
  shows "evicts ns w (foldl (removeIfNotScrollDomNode b) (cleanGarbage b' w) ns)"
proof -
  from cleanGarbage_cases [of b' w] show ?thesis
  proof
    assume "cleanGarbage b' w = w"
    with evict_props [OF assms, of b] show ?thesis by simp
  next
    assume "\<exists>r. scrollDomNode w = Some r
          \<and> cleanGarbage b' w = (removeChild r w)\<lparr>scrollDomNode := None\<rparr>"
    then obtain r where r: "scrollDomNode w = Some r"
      and c: "cleanGarbage b' w = (removeChild r w)\<lparr>scrollDomNode := None\<rparr>" by blast
    let ?wa = "(removeChild r w)\<lparr>scrollDomNode := None\<rparr>"
    let ?wb = "foldl (removeIfNotScrollDomNode b) ?wa ns"
    have rn: "r \<notin> set ns" using assms(3) r by simp
    have da: "distinct (children ?wa)" using assms(1) by (simp add: removeChild_def)
    have "evicts ns ?wa ?wb"
      using evict_props [OF da assms(2), of b] by simp
    then show ?thesis
      using assms(1) r rn
      by (auto simp: evicts_def c removeChild_def remove1_filter intro!: filter_cong)
  qed
qed


lemma removeIfNot_upd:
  "removeIfNotScrollDomNode b (w\<lparr>renderedItems := x\<rparr>) n
     = (removeIfNotScrollDomNode b w n)\<lparr>renderedItems := x\<rparr>"
  "removeIfNotScrollDomNode b (w\<lparr>renderedItemsStart := y\<rparr>) n
     = (removeIfNotScrollDomNode b w n)\<lparr>renderedItemsStart := y\<rparr>"
  by (simp_all add: removeIfNotScrollDomNode_def Let_def removeChild_def getScrollDomNodeTime_def
      split: option.splits)

lemma evict_upd:
  "foldl (removeIfNotScrollDomNode b) (w\<lparr>renderedItems := x\<rparr>) ns
     = (foldl (removeIfNotScrollDomNode b) w ns)\<lparr>renderedItems := x\<rparr>"
  "foldl (removeIfNotScrollDomNode b) (w\<lparr>renderedItemsStart := y\<rparr>) ns
     = (foldl (removeIfNotScrollDomNode b) w ns)\<lparr>renderedItemsStart := y\<rparr>"
  by (induction ns arbitrary: w) (simp_all add: removeIfNot_upd)

lemma cleanGarbage_upd:
  "cleanGarbage b (w\<lparr>renderedItems := x\<rparr>) = (cleanGarbage b w)\<lparr>renderedItems := x\<rparr>"
  "cleanGarbage b (w\<lparr>renderedItemsStart := y\<rparr>) = (cleanGarbage b w)\<lparr>renderedItemsStart := y\<rparr>"
  by (simp_all add: cleanGarbage_def removeChild_def split: option.splits)

lemma evicts_upd:
  "evicts ns w (w'\<lparr>renderedItems := x\<rparr>) = evicts ns w w'"
  "evicts ns w (w'\<lparr>renderedItemsStart := y\<rparr>) = evicts ns w w'"
  by (simp_all add: evicts_def)

lemma removeLinesBefore_all:
  "removeLinesBefore (int (length (renderedItems w))) w
     = (foldl (removeIfNotScrollDomNode True) w (nodes_of (renderedItems w)))\<lparr>renderedItems := []\<rparr>"
  by (simp add: removeLinesBefore_def Let_def removeAll_frame)

lemma removeLinesAfter_tail:
  "renderedItems w = new @ old \<Longrightarrow>
   removeLinesAfter (int (length old)) w
     = (foldl (removeIfNotScrollDomNode False) w (nodes_of old))\<lparr>renderedItems := new\<rparr>"
  by (simp add: removeLinesAfter_def Let_def removeAll_frame)

lemma edges_evict:
  assumes no: "no_overlap rd w"
    and d: "distinct (children w)"
    and dn: "distinct (nodes_of (renderedItems w))"
    and sn: "\<forall>r. scrollDomNode w = Some r \<longrightarrow> r \<notin> set (nodes_of (renderedItems w))"
  shows "evicts (nodes_of (renderedItems w)) w
           (render_trailing_edge rd (render_leading_edge rd w))"
proof -
  define k where "k = length (tops rd)"
  define s where "s = startIndex rd"
  define r where "r = renderedItemsStart w"
  define ls where "ls = renderedItems w"
  define ns where "ns = nodes_of ls"
  have no': "r + int (length ls) - 1 < s \<or> s + int k - 1 < r"
    using no by (simp add: no_overlap_def Let_def k_def s_def r_def ls_def)
  note ev = evict_props [OF d dn sn, THEN conjunct1]
  consider (before) "r < s" | (after) "s < r" | (same) "r = s" by linarith
  then show ?thesis
  proof cases
    case before
    with no' have len: "int (length ls) \<le> s - r" by linarith
    define wL where "wL = render_leading_edge rd w"
    have wL: "wL = (foldl (removeIfNotScrollDomNode True) w ns)
                     \<lparr>renderedItems := [], renderedItemsStart := s\<rparr>"
    proof (cases "ls = []")
      case True
      then show ?thesis
        using before
        by (simp add: wL_def render_leading_edge_def Let_def ns_def nodes_of_def
            r_def [symmetric] s_def [symmetric] ls_def [symmetric])
    next
      case False
      then have "min (int (length ls)) (s - r) = int (length ls)" "0 < int (length ls)"
        using len by simp_all
      then show ?thesis
        using before removeLinesBefore_all [of w]
        by (simp add: wL_def render_leading_edge_def Let_def ns_def
            r_def [symmetric] s_def [symmetric] ls_def [symmetric])
    qed
    have e1: "evicts ns w wL"
      using ev [of True] by (simp add: wL evicts_upd ns_def ls_def)
    have "render_trailing_edge rd wL = wL
        \<or> render_trailing_edge rd wL
            = (cleanGarbage False wL)\<lparr>renderedItems := replicate k createLine\<rparr>"
      by (auto simp: render_trailing_edge_def Let_def wL insertLinesAfter_def cleanGarbage_upd
          k_def s_def)
    then show ?thesis
      using e1 evicts_cleanGarbage [OF e1 d, of False]
      by (auto simp: wL_def [symmetric] ns_def ls_def evicts_upd)
  next
    case after
    with no' have e: "s + int k - 1 < r" by linarith
    define wa where "wa = (if 0 < k then cleanGarbage True w else w)"
    define wL where "wL = render_leading_edge rd w"
    have wL: "wL = wa\<lparr>renderedItems := replicate k createLine @ ls, renderedItemsStart := s\<rparr>"
    proof (cases "0 < k")
      case True
      then have "min (s + int k - 1) (r - 1) = s + int k - 1" "s \<le> s + int k - 1"
        using e by simp_all
      then show ?thesis
        using after True
        by (simp add: wL_def wa_def render_leading_edge_def Let_def insertLinesBefore_def
            cleanGarbage_upd r_def [symmetric] s_def [symmetric] ls_def [symmetric]
            k_def [symmetric])
    next
      case False
      then have "k = 0" by simp
      then show ?thesis
        using after e
        by (simp add: wL_def wa_def render_leading_edge_def Let_def
            r_def [symmetric] s_def [symmetric] ls_def [symmetric] k_def [symmetric])
    qed
    have wT: "render_trailing_edge rd wL
        = (foldl (removeIfNotScrollDomNode False) wa ns)
            \<lparr>renderedItems := replicate k createLine, renderedItemsStart := s\<rparr>"
    proof (cases "ls = []")
      case True
      then show ?thesis
        by (simp add: render_trailing_edge_def Let_def wL ns_def nodes_of_def k_def s_def)
    next
      case False
      have l: "renderedItems wL = replicate k createLine @ ls" by (simp add: wL)
      have "removeLinesAfter (int (length ls)) wL
          = (foldl (removeIfNotScrollDomNode False) wL ns)\<lparr>renderedItems := replicate k createLine\<rparr>"
        unfolding ns_def by (rule removeLinesAfter_tail [OF l])
      then show ?thesis
        using False
        by (simp add: render_trailing_edge_def Let_def wL evict_upd
            k_def [symmetric] s_def [symmetric])
    qed
    have "evicts ns w (foldl (removeIfNotScrollDomNode False) wa ns)"
      using evicts_after_cleanGarbage [OF d dn sn, of False True] ev [of False]
      by (simp add: wa_def ns_def ls_def)
    then show ?thesis
      by (simp add: wL_def [symmetric] wT evicts_upd ns_def ls_def)
  next
    case same
    with no' have z: "ls = [] \<or> k = 0" by auto
    define wL where "wL = render_leading_edge rd w"
    have wL: "wL = w\<lparr>renderedItemsStart := s\<rparr>"
      using same by (simp add: wL_def render_leading_edge_def Let_def r_def s_def)
    show ?thesis
    proof (cases "ls = []")
      case True
      have "render_trailing_edge rd wL = wL
        \<or> render_trailing_edge rd wL
            = (cleanGarbage False wL)\<lparr>renderedItems := replicate k createLine\<rparr>"
        using True
        by (auto simp: render_trailing_edge_def Let_def wL insertLinesAfter_def cleanGarbage_upd
            k_def s_def ls_def [symmetric])
      moreover have e1: "evicts ns w wL"
        using True evicts_refl [of w] by (simp add: wL evicts_upd ns_def nodes_of_def)
      ultimately show ?thesis
        using evicts_cleanGarbage [OF e1 d, of False]
        by (auto simp: wL_def [symmetric] ns_def ls_def evicts_upd)
    next
      case False
      with z have k0: "k = 0" by simp
      have l: "renderedItems wL = [] @ ls" by (simp add: wL ls_def)
      have "removeLinesAfter (int (length ls)) wL
          = (foldl (removeIfNotScrollDomNode False) wL ns)\<lparr>renderedItems := []\<rparr>"
        unfolding ns_def by (rule removeLinesAfter_tail [OF l])
      then have "render_trailing_edge rd wL
          = (foldl (removeIfNotScrollDomNode False) w ns)
              \<lparr>renderedItemsStart := s, renderedItems := []\<rparr>"
        using False k0
        by (simp add: render_trailing_edge_def Let_def wL evict_upd ls_def [symmetric]
            k_def [symmetric] s_def [symmetric])
      then show ?thesis
        using ev [of False]
        by (simp add: wL_def [symmetric] evicts_upd ns_def ls_def)
    qed
  qed
qed


lemma renderUntouchedLines_time:
  "lastScrollTime (renderUntouchedLines a b dt dl w) = lastScrollTime w"
  using renderUntouchedLines_log [of a b dt dl w] by auto

lemma render_grace_evicts:
  assumes no: "no_overlap rd w"
    and g: "\<not> canRemoveScrollDomNode now w"
    and d: "distinct (children w)"
    and dn: "distinct (nodes_of (renderedItems w))"
    and sn: "\<forall>r. scrollDomNode w = Some r \<longrightarrow> r \<notin> set (nodes_of (renderedItems w))"
  shows "\<exists>w3. evicts (nodes_of (renderedItems w)) w w3
          \<and> children (render rd now w)
              = children w3 @ [nextNode w..<nextNode w + length (tops rd)]
          \<and> scrollDomNode (render rd now w) = scrollDomNode w3"
proof -
  define w1 where "w1 = renderUntouchedLines
      (max (startIndex rd - renderedItemsStart w) 0)
      (min (startIndex rd + int (length (tops rd)) - 1 - renderedItemsStart w)
           (int (length (renderedItems w)) - 1))
      (tops rd) (startIndex rd) w"
  define w3 where "w3 = render_trailing_edge rd (render_leading_edge rd w1)"
  have r: "render rd now w = finishRendering False (tops rd) w3"
    using g by (simp add: render_def Let_def w1_def w3_def)
  have f: "renderedItems w1 = renderedItems w" "children w1 = children w"
    "scrollDomNode w1 = scrollDomNode w" "lastScrollTime w1 = lastScrollTime w"
    "nextNode w1 = nextNode w"
    by (simp_all add: w1_def renderUntouchedLines_frame renderUntouchedLines_time)
  have no1: "no_overlap rd w1"
    using no by (simp add: w1_def no_overlap_untouched)
  have l: "renderedItems w3 = replicate (length (tops rd)) createLine"
    unfolding w3_def using no1 by (rule edges_no_overlap)
  have n: "nextNode w3 = nextNode w"
    by (simp add: w3_def trailing_edge_frame leading_edge_frame f)
  have "evicts (nodes_of (renderedItems w1)) w1 w3"
    unfolding w3_def using no1 d dn sn by (intro edges_evict) (simp_all add: f)
  then have e: "evicts (nodes_of (renderedItems w)) w w3"
    by (simp add: evicts_def f)
  have "children (render rd now w) = children w3 @ [nextNode w..<nextNode w + length (tops rd)]"
    by (simp add: r finish_new_lines [OF l] n)
  moreover have "scrollDomNode (render rd now w) = scrollDomNode w3"
    by (simp add: r finish_new_lines [OF l])
  ultimately show ?thesis using e by blast
qed

text \<open>
  Claim C7, amended. For every render pass in which the desired range has no overlap with
  the rendered range, the rendered window afterwards starts at the desired start, has one
  line for every entry of \<open>tops\<close>, and every line is clean and has a node created in this
  pass (the node identities the surface hands out from \<open>nextNode\<close> on): no line and no
  node of the earlier window is reused.

  When no retained scroll node is within its grace period of one second, the retention
  slot is empty afterwards and, when the desired range is not empty, the nodes created in
  the pass are the only children left on the surface.

  While a retained scroll node is within its grace period, the old nodes are evicted
  through the retention path instead. On a surface where the children are pairwise
  distinct, the nodes of the rendered lines are pairwise distinct and the retained node is
  not the node of a rendered line: a node of the old window, and the node retained before,
  is a child afterwards only if it is the node retained afterwards; every other child
  stays, and the nodes created in the pass follow the children that stay. The node
  retained afterwards, if any, is the one retained before or a node of the old window with
  a scroll stamp, and no node of the old window with a scroll stamp has a later stamp.
\<close>

theorem render_without_overlap:
  assumes "no_overlap rd w"
  shows "renderedItemsStart (render rd now w) = startIndex rd
       \<and> renderedItems (render rd now w)
           = map fresh_line [nextNode w..<nextNode w + length (tops rd)]
       \<and> nextNode (render rd now w) = nextNode w + length (tops rd)
       \<and> (canRemoveScrollDomNode now w \<longrightarrow>
            scrollDomNode (render rd now w) = None
          \<and> (tops rd \<noteq> [] \<longrightarrow>
               children (render rd now w) = [nextNode w..<nextNode w + length (tops rd)]))
       \<and> (\<not> canRemoveScrollDomNode now w
          \<and> distinct (children w) \<and> distinct (nodes_of (renderedItems w))
          \<and> (\<forall>r. scrollDomNode w = Some r \<longrightarrow> r \<notin> set (nodes_of (renderedItems w))) \<longrightarrow>
            children (render rd now w)
              = filter (\<lambda>c. (c \<notin> set (nodes_of (renderedItems w)) \<and> Some c \<noteq> scrollDomNode w)
                            \<or> scrollDomNode (render rd now w) = Some c) (children w)
                @ [nextNode w..<nextNode w + length (tops rd)]
          \<and> (\<forall>m. scrollDomNode (render rd now w) = Some m \<longrightarrow>
                 (scrollDomNode w = Some m
                  \<or> (m \<in> set (nodes_of (renderedItems w)) \<and> lastScrollTime w m \<noteq> 0))
               \<and> (\<forall>n \<in> set (nodes_of (renderedItems w)).
                     lastScrollTime w n \<noteq> 0 \<longrightarrow> lastScrollTime w n \<le> lastScrollTime w m)))"
proof (cases "canRemoveScrollDomNode now w")
  case True
  let ?w1 = "w\<lparr>renderedItemsStart := startIndex rd,
               renderedItems := replicate (length (tops rd)) createLine\<rparr>"
  have r: "render rd now w = (finishRendering True (tops rd) ?w1)\<lparr>scrollDomNode := None\<rparr>"
    using True assms by (simp add: render_def render_afresh_def Let_def)
  have l: "renderedItems ?w1 = replicate (length (tops rd)) createLine" by simp
  show ?thesis
    using True by (simp add: r finish_new_lines [OF l])
next
  case False
  define w1 where "w1 = renderUntouchedLines
      (max (startIndex rd - renderedItemsStart w) 0)
      (min (startIndex rd + int (length (tops rd)) - 1 - renderedItemsStart w)
           (int (length (renderedItems w)) - 1))
      (tops rd) (startIndex rd) w"
  define w3 where "w3 = render_trailing_edge rd (render_leading_edge rd w1)"
  have r: "render rd now w = finishRendering False (tops rd) w3"
    using False by (simp add: render_def Let_def w1_def w3_def)
  have "no_overlap rd w1"
    using assms by (simp add: w1_def no_overlap_untouched)
  then have l: "renderedItems w3 = replicate (length (tops rd)) createLine"
    unfolding w3_def by (rule edges_no_overlap)
  have n: "nextNode w3 = nextNode w"
    by (simp add: w3_def trailing_edge_frame leading_edge_frame w1_def renderUntouchedLines_frame)
  have st: "renderedItemsStart w3 = startIndex rd"
    by (simp add: w3_def trailing_edge_frame leading_edge_frame)
  have a: "renderedItemsStart (render rd now w) = startIndex rd
       \<and> renderedItems (render rd now w)
           = map fresh_line [nextNode w..<nextNode w + length (tops rd)]
       \<and> nextNode (render rd now w) = nextNode w + length (tops rd)"
    by (simp add: r finish_new_lines [OF l] n st)
  have b: "children (render rd now w)
              = filter (\<lambda>c. (c \<notin> set (nodes_of (renderedItems w)) \<and> Some c \<noteq> scrollDomNode w)
                            \<or> scrollDomNode (render rd now w) = Some c) (children w)
                @ [nextNode w..<nextNode w + length (tops rd)]
          \<and> (\<forall>m. scrollDomNode (render rd now w) = Some m \<longrightarrow>
                 (scrollDomNode w = Some m
                  \<or> (m \<in> set (nodes_of (renderedItems w)) \<and> lastScrollTime w m \<noteq> 0))
               \<and> (\<forall>n \<in> set (nodes_of (renderedItems w)).
                     lastScrollTime w n \<noteq> 0 \<longrightarrow> lastScrollTime w n \<le> lastScrollTime w m))"
    if "distinct (children w)" "distinct (nodes_of (renderedItems w))"
      "\<forall>r. scrollDomNode w = Some r \<longrightarrow> r \<notin> set (nodes_of (renderedItems w))"
  proof -
    from render_grace_evicts [OF assms False that]
    obtain x where x: "evicts (nodes_of (renderedItems w)) w x"
      "children (render rd now w) = children x @ [nextNode w..<nextNode w + length (tops rd)]"
      "scrollDomNode (render rd now w) = scrollDomNode x"
      by blast
    from x(1) show ?thesis
      unfolding x(2) x(3) evicts_def by blast
  qed
  show ?thesis
    using False a b by blast
qed

theorem render_without_overlap_witness:
  "no_overlap far_render_data grace_window
   \<and> canRemoveScrollDomNode 7000 grace_window
   \<and> renderedItemsStart (render far_render_data 7000 grace_window) = 500
   \<and> renderedItems (render far_render_data 7000 grace_window)
       = [\<lparr>isDirty = False, domNode = Some 3\<rparr>, \<lparr>isDirty = False, domNode = Some 4\<rparr>]
   \<and> scrollDomNode (render far_render_data 7000 grace_window) = None
   \<and> children (render far_render_data 7000 grace_window) = [3, 4]
   \<and> \<not> canRemoveScrollDomNode 5500 grace_window
   \<and> distinct (children grace_window)
   \<and> distinct (nodes_of (renderedItems grace_window))
   \<and> scrollDomNode grace_window = Some 0
   \<and> 0 \<notin> set (nodes_of (renderedItems grace_window))
   \<and> scrollDomNode (render far_render_data 5500 grace_window) = Some 1
   \<and> children (render far_render_data 5500 grace_window) = [1, 3, 4]"
proof -
  have n: "no_overlap far_render_data grace_window" by code_simp
  have c: "canRemoveScrollDomNode 7000 grace_window" by code_simp
  have t: "tops far_render_data \<noteq> []" "length (tops far_render_data) = 2"
    "startIndex far_render_data = 500" "nextNode grace_window = 3"
    by (simp_all add: far_render_data_def grace_window_def)
  have u: "[3..<5] = [3, 4 :: nat]" by code_simp
  have g: "\<not> canRemoveScrollDomNode 5500 grace_window" by code_simp
  have w: "children grace_window = [0, 1, 2]" "nodes_of (renderedItems grace_window) = [1, 2]"
    "scrollDomNode grace_window = Some 0"
    by (simp_all add: grace_window_def nodes_of_def)
  have s: "scrollDomNode (render far_render_data 5500 grace_window) = Some 1" by code_simp
  have p1: "renderedItemsStart (render far_render_data 7000 grace_window) = 500
   \<and> renderedItems (render far_render_data 7000 grace_window)
       = [\<lparr>isDirty = False, domNode = Some 3\<rparr>, \<lparr>isDirty = False, domNode = Some 4\<rparr>]
   \<and> scrollDomNode (render far_render_data 7000 grace_window) = None
   \<and> children (render far_render_data 7000 grace_window) = [3, 4]"
    using render_without_overlap [OF n, of 7000] c t
    by (simp add: fresh_line_def u)
  have p2: "children (render far_render_data 5500 grace_window) = [1, 3, 4]"
    using render_without_overlap [OF n, of 5500] g t
    by (simp add: w s u)
  show ?thesis
    using n c g p1 p2 s by (simp add: w)
qed

text \<open>
  Claim C7, as stated, fails while a retained scroll node is within its grace period: the
  pass then takes the incremental path although the ranges do not overlap, and evicts the
  old nodes through the retention path. At time 5500 the retained node 0 (stamped 5000) is
  in grace; node 1 of the current window (stamped 5200) is not destroyed: it takes over
  the retention slot and stays on the surface.
\<close>

theorem render_grace_counterexample:
  "no_overlap far_render_data grace_window
   \<and> Some 1 \<in> domNode ` set (renderedItems grace_window)
   \<and> 1 \<in> set (children (render far_render_data 5500 grace_window))
   \<and> scrollDomNode (render far_render_data 5500 grace_window) = Some 1"
  by code_simp

section \<open>Lines that are reused\<close>

subsection \<open>Lines that are not dirty\<close>

lemma setDomNodes_back_length: "length (setDomNodes_back lbs cs) = length lbs"
  by (induction lbs cs rule: setDomNodes_back.induct) (simp_all split: list.splits)

lemma setDomNodes_back_keeps:
  "p < length lbs \<Longrightarrow> \<not> snd (lbs ! p) \<Longrightarrow> setDomNodes_back lbs cs ! p = fst (lbs ! p)"
proof (induction lbs cs arbitrary: p rule: setDomNodes_back.induct)
  case (1 cs)
  then show ?case by simp
next
  case (2 line wasNew ls cs)
  show ?case
  proof (cases p)
    case 0
    with "2.prems" show ?thesis by simp
  next
    case (Suc q)
    with "2.prems" have q: "q < length ls" "\<not> snd (ls ! q)" by simp_all
    show ?thesis
    proof (cases wasNew)
      case True
      show ?thesis
      proof (cases cs)
        case Nil
        with True Suc "2.IH"(1) [OF True Nil q] show ?thesis by simp
      next
        case (Cons c cs')
        with True Suc "2.IH"(2) [OF True Cons q] show ?thesis by simp
      qed
    next
      case False
      with Suc "2.IH"(3) [OF False q] show ?thesis by simp
    qed
  qed
qed

lemma replaceInvalid_length: "length (fst (replaceInvalid lbs srcs ch)) = length lbs"
  by (induction lbs srcs ch rule: replaceInvalid.induct)
     (simp_all add: Let_def case_prod_beta split: list.splits)

lemma replaceInvalid_keeps:
  "p < length lbs \<Longrightarrow> \<not> snd (lbs ! p) \<Longrightarrow>
   fst (replaceInvalid lbs srcs ch) ! p = fst (lbs ! p)"
proof (induction lbs srcs ch arbitrary: p rule: replaceInvalid.induct)
  case (1 sources ch)
  then show ?case by simp
next
  case (2 line wasInvalid ls sources ch)
  show ?case
  proof (cases p)
    case 0
    with "2.prems" show ?thesis by (simp add: Let_def case_prod_beta)
  next
    case (Suc q)
    with "2.prems" have q: "q < length ls" "\<not> snd (ls ! q)" by simp_all
    show ?thesis
    proof (cases wasInvalid)
      case True
      show ?thesis
      proof (cases sources)
        case Nil
        with True Suc "2.IH"(1) [OF True Nil q] show ?thesis
          by (simp add: Let_def case_prod_beta)
      next
        case (Cons s ss)
        with True Suc "2.IH"(2) [OF True Cons refl q] show ?thesis
          by (simp add: Let_def case_prod_beta)
      qed
    next
      case False
      with Suc "2.IH"(3) [OF False q] show ?thesis
        by (simp add: Let_def case_prod_beta)
    qed
  qed
qed

lemma clear_clean: "\<not> isDirty line \<Longrightarrow> line\<lparr>isDirty := False\<rparr> = line"
  by (cases line) simp

lemma collectLinesHTML_frame:
  "length (renderedItems (collectLinesHTML dt w)) = length (renderedItems w)"
  "renderedItemsStart (collectLinesHTML dt w) = renderedItemsStart w"
  "laidOut (collectLinesHTML dt w) = laidOut w"
  "modelRendered (collectLinesHTML dt w)
     = modelRendered w
       @ map (\<lambda>i. (int i + renderedItemsStart w, js_index dt (int i)))
           (filter (\<lambda>i. isDirty (renderedItems w ! i)) [0..<length (renderedItems w)])"
  by (simp_all add: collectLinesHTML_def Let_def)

lemma collectLinesHTML_keeps:
  "p < length (renderedItems w) \<Longrightarrow> \<not> isDirty (renderedItems w ! p) \<Longrightarrow>
   renderedItems (collectLinesHTML dt w) ! p = renderedItems w ! p"
  by (simp add: collectLinesHTML_def Let_def clear_clean)

lemma insertNewLines_frame:
  "length bs = length (renderedItems w) \<Longrightarrow>
   length (renderedItems (insertNewLines e bs w)) = length (renderedItems w)"
  "renderedItemsStart (insertNewLines e bs w) = renderedItemsStart w"
  "laidOut (insertNewLines e bs w) = laidOut w"
  "modelRendered (insertNewLines e bs w) = modelRendered w"
  by (simp_all add: insertNewLines_def Let_def setDomNodes_back_length)

lemma insertNewLines_keeps:
  assumes len: "length bs = length (renderedItems w)"
    and p: "p < length (renderedItems w)" and no: "\<not> bs ! p"
  shows "renderedItems (insertNewLines e bs w) ! p = renderedItems w ! p"
proof -
  define z where "z = zip (renderedItems w) bs"
  have lz: "length z = length (renderedItems w)" by (simp add: z_def len)
  have keep: "rev (setDomNodes_back (rev z) cs) ! p = renderedItems w ! p" for cs
  proof -
    let ?q = "length z - Suc p"
    have q: "?q < length (rev z)" using p by (simp add: lz)
    have "rev z ! ?q = z ! (length z - Suc ?q)"
      using p by (intro rev_nth) (simp add: lz)
    also have "length z - Suc ?q = p" using p by (simp add: lz)
    finally have at: "rev z ! ?q = (renderedItems w ! p, bs ! p)"
      using p len by (simp add: z_def)
    have "setDomNodes_back (rev z) cs ! ?q = fst (rev z ! ?q)"
      using q by (rule setDomNodes_back_keeps) (simp add: at no)
    moreover have "rev (setDomNodes_back (rev z) cs) ! p = setDomNodes_back (rev z) cs ! ?q"
      using p by (subst rev_nth) (simp_all add: setDomNodes_back_length lz)
    ultimately show ?thesis by (simp add: at)
  qed
  show ?thesis
    using keep by (simp add: insertNewLines_def Let_def flip: z_def)
qed

lemma replaceInvalidLines_frame:
  "length bs = length (renderedItems w) \<Longrightarrow>
   length (renderedItems (replaceInvalidLines bs w)) = length (renderedItems w)"
  "renderedItemsStart (replaceInvalidLines bs w) = renderedItemsStart w"
  "laidOut (replaceInvalidLines bs w) = laidOut w"
  "modelRendered (replaceInvalidLines bs w) = modelRendered w"
  by (simp_all add: replaceInvalidLines_def Let_def case_prod_beta replaceInvalid_length)

lemma replaceInvalidLines_keeps:
  assumes len: "length bs = length (renderedItems w)"
    and p: "p < length (renderedItems w)" and no: "\<not> bs ! p"
  shows "renderedItems (replaceInvalidLines bs w) ! p = renderedItems w ! p"
proof -
  have "fst (replaceInvalid (zip (renderedItems w) bs) srcs ch) ! p
      = fst (zip (renderedItems w) bs ! p)" for srcs ch
    using p len no by (intro replaceInvalid_keeps) simp_all
  then show ?thesis
    using p len by (simp add: replaceInvalidLines_def Let_def case_prod_beta)
qed

lemma finish_keeps_clean:
  assumes p: "p < length (renderedItems w)" and clean: "\<not> isDirty (renderedItems w ! p)"
  shows "renderedItems (finishRendering e dt w) ! p = renderedItems w ! p"
proof -
  define wn where "wn = wasNew_flags (renderedItems w)"
  define wi where "wi = wasInvalid_flags (renderedItems w)"
  define w1 where "w1 = collectLinesHTML dt w"
  define w2 where "w2 = insertNewLines e wn w1"
  have l1: "length (renderedItems w1) = length (renderedItems w)"
    by (simp add: w1_def collectLinesHTML_frame)
  have lwn: "length wn = length (renderedItems w1)" by (simp add: wn_def wasNew_flags_def l1)
  have l2: "length (renderedItems w2) = length (renderedItems w)"
    using lwn by (simp add: w2_def insertNewLines_frame l1)
  have lwi: "length wi = length (renderedItems w2)" by (simp add: wi_def wasInvalid_flags_def l2)
  have n: "\<not> wn ! p" "\<not> wi ! p"
    using p clean by (simp_all add: wn_def wi_def wasNew_flags_def wasInvalid_flags_def)
  have "renderedItems (replaceInvalidLines wi w2) ! p = renderedItems w2 ! p"
    using lwi p n(2) by (intro replaceInvalidLines_keeps) (simp_all add: l2)
  also have "\<dots> = renderedItems w1 ! p"
    unfolding w2_def using lwn p n(1) by (intro insertNewLines_keeps) (simp_all add: l1)
  also have "\<dots> = renderedItems w ! p"
    unfolding w1_def using p clean by (rule collectLinesHTML_keeps)
  finally show ?thesis
    by (simp add: finishRendering_def Let_def w2_def w1_def wn_def wi_def)
qed

lemma finish_calls:
  "modelRendered (finishRendering e dt w)
     = modelRendered w
       @ map (\<lambda>i. (int i + renderedItemsStart w, js_index dt (int i)))
           (filter (\<lambda>i. isDirty (renderedItems w ! i)) [0..<length (renderedItems w)])"
  by (simp add: finishRendering_def Let_def replaceInvalidLines_frame insertNewLines_frame
      collectLinesHTML_frame)

lemma finish_frame:
  "laidOut (finishRendering e dt w) = laidOut w"
  "renderedItemsStart (finishRendering e dt w) = renderedItemsStart w"
  by (simp_all add: finishRendering_def Let_def replaceInvalidLines_frame insertNewLines_frame
      collectLinesHTML_frame)

subsection \<open>Lines that stay in the window\<close>

lemma layoutUntouched_fold_log:
  "\<exists>es. foldl (layoutUntouchedLine dt dl) w xs = w\<lparr>laidOut := laidOut w @ es\<rparr>"
proof (induction xs arbitrary: w)
  case Nil
  have "foldl (layoutUntouchedLine dt dl) w [] = w\<lparr>laidOut := laidOut w @ []\<rparr>" by simp
  then show ?case by blast
next
  case (Cons i xs)
  obtain e1 where e1: "layoutUntouchedLine dt dl w i = w\<lparr>laidOut := laidOut w @ e1\<rparr>"
    using layoutUntouchedLine_log by blast
  obtain e2 where "foldl (layoutUntouchedLine dt dl) (w\<lparr>laidOut := laidOut w @ e1\<rparr>) xs
      = (w\<lparr>laidOut := laidOut w @ e1\<rparr>)\<lparr>laidOut := laidOut (w\<lparr>laidOut := laidOut w @ e1\<rparr>) @ e2\<rparr>"
    using Cons.IH by blast
  then have "foldl (layoutUntouchedLine dt dl) w (i # xs) = w\<lparr>laidOut := laidOut w @ (e1 @ e2)\<rparr>"
    by (simp add: e1)
  then show ?case by blast
qed

lemma untouched_line_laid_out:
  assumes "a \<le> i" and "i \<le> b"
    and line: "js_index (renderedItems w) i = Some line" and node: "domNode line = Some n"
  shows "(n, renderedItemsStart w + i, js_index dt (renderedItemsStart w + i - dl))
           \<in> set (laidOut (renderUntouchedLines a b dt dl w))"
proof -
  let ?f = "layoutUntouchedLine dt dl"
  have split: "[a..b] = [a..i - 1] @ i # [i + 1..b]"
    using assms(1,2) by (rule upto_split3)
  obtain e1 where e1: "foldl ?f w [a..i - 1] = w\<lparr>laidOut := laidOut w @ e1\<rparr>"
    using layoutUntouched_fold_log by blast
  let ?w1 = "w\<lparr>laidOut := laidOut w @ e1\<rparr>"
  have step: "?f ?w1 i
      = ?w1\<lparr>laidOut := laidOut ?w1
            @ [(n, renderedItemsStart w + i, js_index dt (renderedItemsStart w + i - dl))]\<rparr>"
    using line node by (simp add: layoutUntouchedLine_def layoutLine_def Let_def)
  define w2 where "w2 = ?f ?w1 i"
  have in2: "(n, renderedItemsStart w + i, js_index dt (renderedItemsStart w + i - dl))
      \<in> set (laidOut w2)"
    by (simp add: w2_def step)
  obtain e2 where e2: "foldl ?f w2 [i + 1..b] = w2\<lparr>laidOut := laidOut w2 @ e2\<rparr>"
    using layoutUntouched_fold_log by blast
  have "renderUntouchedLines a b dt dl w = foldl ?f w2 [i + 1..b]"
    by (simp add: renderUntouchedLines_def split e1 w2_def)
  then show ?thesis
    using in2 by (simp add: e2)
qed

lemma edges_length:
  "length (renderedItems (render_trailing_edge rd (render_leading_edge rd w))) = length (tops rd)"
proof -
  have "renderedItems (render_trailing_edge rd (render_leading_edge rd w))
      = take (length (tops rd)) (renderedItems (render_leading_edge rd w))
        @ replicate (length (tops rd) - length (renderedItems (render_leading_edge rd w))) createLine"
    by (rule trailing_edge_lines) (simp add: leading_edge_frame)
  then show ?thesis by simp
qed

lemma edges_keep:
  assumes i: "i < length (renderedItems w)"
    and lo: "startIndex rd \<le> renderedItemsStart w + int i"
    and hi: "renderedItemsStart w + int i \<le> startIndex rd + int (length (tops rd)) - 1"
  shows "renderedItems (render_trailing_edge rd (render_leading_edge rd w))
           ! nat (renderedItemsStart w + int i - startIndex rd)
         = renderedItems w ! i"
proof -
  define k where "k = length (tops rd)"
  define s where "s = startIndex rd"
  define r where "r = renderedItemsStart w"
  define ls where "ls = renderedItems w"
  define L where "L = renderedItems (render_leading_edge rd w)"
  define p where "p = nat (r + int i - s)"
  have T: "renderedItems (render_trailing_edge rd (render_leading_edge rd w))
         = take k L @ replicate (k - length L) createLine"
    unfolding k_def L_def by (rule trailing_edge_lines) (simp add: leading_edge_frame)
  have Ldef: "L = (if r > s
        then replicate (nat (min (s + int k - 1) (r - 1) - s + 1)) createLine @ ls
        else drop (nat (s - r)) ls)"
    unfolding L_def k_def s_def r_def ls_def by (rule leading_edge_lines)
  have il: "i < length ls" using i by (simp add: ls_def)
  have lo': "s \<le> r + int i" and hi': "r + int i \<le> s + int k - 1"
    using lo hi by (simp_all add: s_def r_def k_def)
  have pk: "p < k" using lo' hi' by (simp add: p_def)
  have Lp: "p < length L \<and> L ! p = ls ! i"
  proof (cases "r > s")
    case True
    then have a: "nat (min (s + int k - 1) (r - 1) - s + 1) = nat (r - s)"
      using hi' by simp
    have pa: "p = nat (r - s) + i" using True by (simp add: p_def)
    have "L = replicate (nat (r - s)) createLine @ ls"
      using True by (simp add: Ldef a)
    then show ?thesis using il by (simp add: pa nth_append)
  next
    case False
    then have L: "L = drop (nat (s - r)) ls" by (simp add: Ldef)
    have ip: "nat (s - r) + p = i" using False lo' by (simp add: p_def)
    then have "p < length L" using il by (simp add: L)
    moreover have "L ! p = ls ! i" using il ip by (simp add: L)
    ultimately show ?thesis by simp
  qed
  have "(take k L @ replicate (k - length L) createLine) ! p = ls ! i"
    using Lp pk by (simp add: nth_append)
  then show ?thesis
    by (simp add: T p_def r_def s_def ls_def)
qed

subsection \<open>The node of a line that stays\<close>

lemma nodes_of_append: "nodes_of (xs @ ys) = nodes_of xs @ nodes_of ys"
  by (simp add: nodes_of_def)

lemma nodes_of_new: "nodes_of (replicate m createLine) = []"
  by (induction m) (simp_all add: nodes_of_def createLine_def)

lemma nodes_of_nth:
  "p < length ls \<Longrightarrow> domNode (ls ! p) = Some n \<Longrightarrow> n \<in> set (nodes_of ls)"
  by (force simp: nodes_of_def in_set_conv_nth)

lemma nodes_of_take_drop: "nodes_of (take c ls) @ nodes_of (drop c ls) = nodes_of ls"
  using nodes_of_append [of "take c ls" "drop c ls"] by simp

lemma node_not_before:
  assumes "distinct (nodes_of ls)" "c \<le> p" "p < length ls" "domNode (ls ! p) = Some n"
  shows "n \<notin> set (nodes_of (take c ls))"
proof -
  have "n \<in> set (nodes_of (drop c ls))"
    using assms(2,3,4) by (intro nodes_of_nth [of "p - c"]) simp_all
  moreover have "distinct (nodes_of (take c ls) @ nodes_of (drop c ls))"
    using assms(1) by (simp only: nodes_of_take_drop)
  ultimately show ?thesis by auto
qed

lemma node_not_after:
  assumes "distinct (nodes_of ls)" "p < c" "p < length ls" "domNode (ls ! p) = Some n"
  shows "n \<notin> set (nodes_of (drop c ls))"
proof -
  have "n \<in> set (nodes_of (take c ls))"
    using assms(2,3,4) by (intro nodes_of_nth [of p]) simp_all
  moreover have "distinct (nodes_of (take c ls) @ nodes_of (drop c ls))"
    using assms(1) by (simp only: nodes_of_take_drop)
  ultimately show ?thesis by auto
qed

lemma node_unique:
  assumes d: "distinct (nodes_of ls)" and p: "p < length ls" and q: "q < length ls"
    and np: "domNode (ls ! p) = Some n" and nq: "domNode (ls ! q) = Some n"
  shows "p = q"
proof (rule ccontr)
  assume "p \<noteq> q"
  then consider "p < q" | "q < p" by linarith
  then show False
  proof cases
    case 1
    have "n \<notin> set (nodes_of (take q ls))"
      using d _ q nq by (rule node_not_before) simp
    moreover have "n \<in> set (nodes_of (take q ls))"
      using 1 p np by (intro nodes_of_nth [of p]) simp_all
    ultimately show False by simp
  next
    case 2
    have "n \<notin> set (nodes_of (take p ls))"
      using d _ p np by (rule node_not_before) simp
    moreover have "n \<in> set (nodes_of (take p ls))"
      using 2 q nq by (intro nodes_of_nth [of q]) simp_all
    ultimately show False by simp
  qed
qed

lemma removeIfNot_attached:
  assumes "m \<noteq> n" "n \<in> set (children w)" "scrollDomNode w \<noteq> Some n"
  shows "n \<in> set (children (removeIfNotScrollDomNode b w m))
       \<and> scrollDomNode (removeIfNotScrollDomNode b w m) \<noteq> Some n"
  using assms by (auto simp: removeIfNot_children removeIfNot_slot split: option.splits)

lemma evict_attached:
  "n \<notin> set ms \<Longrightarrow> n \<in> set (children w) \<Longrightarrow> scrollDomNode w \<noteq> Some n \<Longrightarrow>
   n \<in> set (children (foldl (removeIfNotScrollDomNode b) w ms))
   \<and> scrollDomNode (foldl (removeIfNotScrollDomNode b) w ms) \<noteq> Some n"
proof (induction ms arbitrary: w)
  case Nil
  then show ?case by simp
next
  case (Cons m ms)
  have "m \<noteq> n" using Cons.prems(1) by auto
  from removeIfNot_attached [OF this Cons.prems(2,3), of b] Cons.prems(1)
  show ?case by (simp add: Cons.IH)
qed

lemma cleanGarbage_attached:
  "n \<in> set (children w) \<Longrightarrow> scrollDomNode w \<noteq> Some n \<Longrightarrow>
   n \<in> set (children (cleanGarbage b w)) \<and> scrollDomNode (cleanGarbage b w) \<noteq> Some n"
  by (auto simp: cleanGarbage_def removeChild_def split: option.splits)


lemma nodes_of_take_subset: "set (nodes_of (take c ls)) \<subseteq> set (nodes_of ls)"
  using nodes_of_take_drop [of c ls] by (metis Un_upper1 set_append)

lemma removeLinesBefore_attached:
  assumes "n \<in> set (children w)" "scrollDomNode w \<noteq> Some n"
    and "distinct (nodes_of (renderedItems w))"
    and "i < length (renderedItems w)" "domNode (renderedItems w ! i) = Some n" "nat c \<le> i"
  shows "n \<in> set (children (removeLinesBefore c w))
       \<and> scrollDomNode (removeLinesBefore c w) \<noteq> Some n"
proof -
  have "n \<notin> set (nodes_of (take (nat c) (renderedItems w)))"
    using assms(3,6,4,5) by (rule node_not_before)
  from evict_attached [OF this assms(1,2), of True]
  show ?thesis by (simp add: removeLinesBefore_def Let_def)
qed

lemma removeLinesAfter_attached:
  assumes "n \<in> set (children w)" "scrollDomNode w \<noteq> Some n"
    and "distinct (nodes_of (renderedItems w))"
    and "i < length (renderedItems w)" "domNode (renderedItems w ! i) = Some n"
    and "i < nat (int (length (renderedItems w)) - c)"
  shows "n \<in> set (children (removeLinesAfter c w))
       \<and> scrollDomNode (removeLinesAfter c w) \<noteq> Some n"
proof -
  let ?ri = "nat (int (length (renderedItems w)) - c)"
  have "n \<notin> set (nodes_of (drop ?ri (renderedItems w)))"
    using assms(3,6,4,5) by (rule node_not_after)
  then have "n \<notin> set (nodes_of (take (nat c) (drop ?ri (renderedItems w))))"
    using nodes_of_take_subset [of "nat c" "drop ?ri (renderedItems w)"] by auto
  from evict_attached [OF this assms(1,2), of False]
  show ?thesis by (simp add: removeLinesAfter_def Let_def)
qed

lemma leading_edge_attached:
  assumes at: "n \<in> set (children w)" "scrollDomNode w \<noteq> Some n"
    and d: "distinct (nodes_of (renderedItems w))"
    and i: "i < length (renderedItems w)" and node: "domNode (renderedItems w ! i) = Some n"
    and lo: "startIndex rd \<le> renderedItemsStart w + int i"
  shows "n \<in> set (children (render_leading_edge rd w))
       \<and> scrollDomNode (render_leading_edge rd w) \<noteq> Some n"
proof -
  consider (ins) "renderedItemsStart w > startIndex rd"
    | (rem) "renderedItemsStart w < startIndex rd" | (same) "renderedItemsStart w = startIndex rd"
    by linarith
  then show ?thesis
  proof cases
    case ins
    then show ?thesis
      using at cleanGarbage_attached [OF at, of True]
      by (simp add: render_leading_edge_def Let_def insertLinesBefore_def cleanGarbage_upd)
  next
    case rem
    define c where "c = min (int (length (renderedItems w)))
        (startIndex rd - renderedItemsStart w)"
    have "nat c \<le> i" using lo by (simp add: c_def)
    from removeLinesBefore_attached [OF at d i node this] rem at
    show ?thesis
      by (simp add: render_leading_edge_def Let_def c_def)
  next
    case same
    then show ?thesis using at by (simp add: render_leading_edge_def Let_def)
  qed
qed

lemma trailing_edge_attached:
  assumes at: "n \<in> set (children w)" "scrollDomNode w \<noteq> Some n"
    and d: "distinct (nodes_of (renderedItems w))"
    and i: "i < length (renderedItems w)" and node: "domNode (renderedItems w ! i) = Some n"
    and hi: "renderedItemsStart w + int i \<le> startIndex rd + int (length (tops rd)) - 1"
  shows "n \<in> set (children (render_trailing_edge rd w))
       \<and> scrollDomNode (render_trailing_edge rd w) \<noteq> Some n"
proof -
  define e where "e = startIndex rd + int (length (tops rd)) - 1"
  define r where "r = renderedItemsStart w"
  define len where "len = int (length (renderedItems w))"
  consider (ins) "r + len - 1 < e" | (rem) "r + len - 1 > e" | (same) "r + len - 1 = e"
    by linarith
  then show ?thesis
  proof cases
    case ins
    then show ?thesis
      using at cleanGarbage_attached [OF at, of False]
      by (simp add: render_trailing_edge_def Let_def insertLinesAfter_def cleanGarbage_upd
          e_def r_def len_def)
  next
    case rem
    define c where "c = len - 1 - max 0 (e - r + 1) + 1"
    have "int i < len - c" using hi by (simp add: c_def e_def r_def)
    then have "i < nat (int (length (renderedItems w)) - c)" by (simp add: len_def)
    from removeLinesAfter_attached [OF at d i node this] rem at
    show ?thesis
      by (simp add: render_trailing_edge_def Let_def c_def e_def r_def len_def)
  next
    case same
    then show ?thesis using at
      by (simp add: render_trailing_edge_def Let_def e_def r_def len_def)
  qed
qed

lemma leading_edge_keep:
  assumes i: "i < length (renderedItems w)"
    and lo: "startIndex rd \<le> renderedItemsStart w + int i"
    and hi: "renderedItemsStart w + int i \<le> startIndex rd + int (length (tops rd)) - 1"
  shows "nat (renderedItemsStart w + int i - startIndex rd)
           < length (renderedItems (render_leading_edge rd w))
       \<and> renderedItems (render_leading_edge rd w)
           ! nat (renderedItemsStart w + int i - startIndex rd)
         = renderedItems w ! i"
proof -
  define k where "k = length (tops rd)"
  define s where "s = startIndex rd"
  define r where "r = renderedItemsStart w"
  define ls where "ls = renderedItems w"
  define L where "L = renderedItems (render_leading_edge rd w)"
  define p where "p = nat (r + int i - s)"
  have Ldef: "L = (if r > s
        then replicate (nat (min (s + int k - 1) (r - 1) - s + 1)) createLine @ ls
        else drop (nat (s - r)) ls)"
    unfolding L_def k_def s_def r_def ls_def by (rule leading_edge_lines)
  have il: "i < length ls" using i by (simp add: ls_def)
  have lo': "s \<le> r + int i" and hi': "r + int i \<le> s + int k - 1"
    using lo hi by (simp_all add: s_def r_def k_def)
  have "p < length L \<and> L ! p = ls ! i"
  proof (cases "r > s")
    case True
    then have a: "nat (min (s + int k - 1) (r - 1) - s + 1) = nat (r - s)"
      using hi' by simp
    have pa: "p = nat (r - s) + i" using True by (simp add: p_def)
    have "L = replicate (nat (r - s)) createLine @ ls"
      using True by (simp add: Ldef a)
    then show ?thesis using il by (simp add: pa nth_append)
  next
    case False
    then have L: "L = drop (nat (s - r)) ls" by (simp add: Ldef)
    have ip: "nat (s - r) + p = i" using False lo' by (simp add: p_def)
    then have "p < length L" using il by (simp add: L)
    moreover have "L ! p = ls ! i" using il ip by (simp add: L)
    ultimately show ?thesis by simp
  qed
  then show ?thesis by (simp add: L_def p_def r_def s_def ls_def)
qed

lemma leading_edge_distinct:
  "distinct (nodes_of (renderedItems w)) \<Longrightarrow>
   distinct (nodes_of (renderedItems (render_leading_edge rd w)))"
proof -
  assume d: "distinct (nodes_of (renderedItems w))"
  have "distinct (nodes_of (drop c (renderedItems w)))" for c
    using d nodes_of_take_drop [of c "renderedItems w"] by (metis distinct_append)
  then show ?thesis
    using d by (simp add: leading_edge_lines nodes_of_append nodes_of_new)
qed

lemma edges_attached:
  assumes at: "n \<in> set (children w)" "scrollDomNode w \<noteq> Some n"
    and d: "distinct (nodes_of (renderedItems w))"
    and i: "i < length (renderedItems w)" and node: "domNode (renderedItems w ! i) = Some n"
    and lo: "startIndex rd \<le> renderedItemsStart w + int i"
    and hi: "renderedItemsStart w + int i \<le> startIndex rd + int (length (tops rd)) - 1"
  shows "n \<in> set (children (render_trailing_edge rd (render_leading_edge rd w)))"
proof -
  let ?wL = "render_leading_edge rd w"
  let ?p = "nat (renderedItemsStart w + int i - startIndex rd)"
  have a: "n \<in> set (children ?wL)" "scrollDomNode ?wL \<noteq> Some n"
    using leading_edge_attached [OF at d i node lo] by simp_all
  have k: "?p < length (renderedItems ?wL)" "renderedItems ?wL ! ?p = renderedItems w ! i"
    using leading_edge_keep [OF i lo hi] by simp_all
  have "renderedItemsStart ?wL + int ?p \<le> startIndex rd + int (length (tops rd)) - 1"
    using lo hi by (simp add: leading_edge_frame)
  from trailing_edge_attached [OF a leading_edge_distinct [OF d] k(1) _ this] node k(2)
  show ?thesis by simp
qed

lemma replaceInvalid_child_stays:
  "n \<in> set ch \<Longrightarrow> (\<forall>x \<in> set lbs. snd x \<longrightarrow> domNode (fst x) \<noteq> Some n) \<Longrightarrow>
   n \<in> set (snd (replaceInvalid lbs srcs ch))"
proof (induction lbs srcs ch rule: replaceInvalid.induct)
  case (1 sources ch)
  then show ?case by simp
next
  case (2 line wasInvalid ls sources ch)
  show ?case
  proof (cases wasInvalid)
    case True
    show ?thesis
    proof (cases sources)
      case Nil
      with True "2.IH"(1) [OF True Nil] "2.prems" show ?thesis
        by (simp add: Let_def case_prod_beta)
    next
      case (Cons s ss)
      have "domNode line \<noteq> Some n" using True "2.prems"(2) by simp
      then have n1: "n \<in> set (case domNode line of
                              None \<Rightarrow> ch
                            | Some m \<Rightarrow> map (\<lambda>c. if c = m then s else c) ch)"
        using "2.prems"(1) by (auto split: option.splits)
      from "2.IH"(2) [OF True Cons refl n1] "2.prems"(2)
      show ?thesis
        using True Cons by (simp add: Let_def case_prod_beta)
    qed
  next
    case False
    with "2.IH"(3) [OF False] "2.prems" show ?thesis
      by (simp add: Let_def case_prod_beta)
  qed
qed


lemma finish_attached:
  assumes at: "n \<in> set (children w)"
    and p: "p < length (renderedItems w)" and clean: "\<not> isDirty (renderedItems w ! p)"
    and node: "domNode (renderedItems w ! p) = Some n"
    and d: "distinct (nodes_of (renderedItems w))"
  shows "n \<in> set (children (finishRendering False dt w))"
proof -
  define wn where "wn = wasNew_flags (renderedItems w)"
  define wi where "wi = wasInvalid_flags (renderedItems w)"
  define w1 where "w1 = collectLinesHTML dt w"
  define w2 where "w2 = insertNewLines False wn w1"
  have l1: "length (renderedItems w1) = length (renderedItems w)"
    by (simp add: w1_def collectLinesHTML_frame)
  have lwn: "length wn = length (renderedItems w1)" by (simp add: wn_def wasNew_flags_def l1)
  have l2: "length (renderedItems w2) = length (renderedItems w)"
    using lwn by (simp add: w2_def insertNewLines_frame l1)
  have lwi: "length wi = length (renderedItems w2)" by (simp add: wi_def wasInvalid_flags_def l2)
  have c1: "n \<in> set (children w1)"
    using at by (simp add: w1_def collectLinesHTML_def Let_def)
  have c2: "n \<in> set (children w2)"
    using c1 by (auto simp: w2_def insertNewLines_def Let_def)
  have other: "domNode (renderedItems w2 ! q) \<noteq> Some n"
    if q: "q < length (renderedItems w)" and inv: "wi ! q" for q
  proof
    assume eq: "domNode (renderedItems w2 ! q) = Some n"
    have dirty: "isDirty (renderedItems w ! q)" and "\<not> wn ! q"
      using q inv by (simp_all add: wi_def wn_def wasInvalid_flags_def wasNew_flags_def)
    then have "renderedItems w2 ! q = renderedItems w1 ! q"
      unfolding w2_def using lwn q by (intro insertNewLines_keeps) (simp_all add: l1)
    moreover have "domNode (renderedItems w1 ! q) = domNode (renderedItems w ! q)"
      using q by (simp add: w1_def collectLinesHTML_def Let_def)
    ultimately have "domNode (renderedItems w ! q) = Some n" using eq by simp
    from node_unique [OF d p q node this] have "p = q" .
    with clean dirty show False by simp
  qed
  have cond: "\<forall>x \<in> set (zip (renderedItems w2) wi). snd x \<longrightarrow> domNode (fst x) \<noteq> Some n"
  proof
    fix x
    assume "x \<in> set (zip (renderedItems w2) wi)"
    then obtain q where q: "q < length (zip (renderedItems w2) wi)"
      "zip (renderedItems w2) wi ! q = x"
      unfolding in_set_conv_nth by blast
    from q(1) have ql: "q < length (renderedItems w)" using lwi l2 by simp
    then have "x = (renderedItems w2 ! q, wi ! q)"
      using q(2) lwi l2 by simp
    then show "snd x \<longrightarrow> domNode (fst x) \<noteq> Some n"
      using other [OF ql] by simp
  qed
  have "n \<in> set (children (replaceInvalidLines wi w2))"
    using c2 replaceInvalid_child_stays [OF c2 cond]
    by (simp add: replaceInvalidLines_def Let_def case_prod_beta)
  then show ?thesis
    by (simp add: finishRendering_def Let_def w2_def w1_def wn_def wi_def)
qed

lemma kept_line_attached:
  assumes i: "i < length (renderedItems w)" and clean: "\<not> isDirty (renderedItems w ! i)"
    and lo: "startIndex rd \<le> renderedItemsStart w + int i"
    and hi: "renderedItemsStart w + int i \<le> startIndex rd + int (length (tops rd)) - 1"
    and node: "domNode (renderedItems w ! i) = Some n"
    and at: "n \<in> set (children w)" "scrollDomNode w \<noteq> Some n"
    and d: "distinct (nodes_of (renderedItems w))"
  shows "n \<in> set (children (render rd now w))"
proof -
  define w1 where "w1 = renderUntouchedLines
      (max (startIndex rd - renderedItemsStart w) 0)
      (min (startIndex rd + int (length (tops rd)) - 1 - renderedItemsStart w)
           (int (length (renderedItems w)) - 1))
      (tops rd) (startIndex rd) w"
  define w3 where "w3 = render_trailing_edge rd (render_leading_edge rd w1)"
  have "\<not> no_overlap rd w"
    using i lo hi by (auto simp: no_overlap_def Let_def)
  then have r: "render rd now w = finishRendering False (tops rd) w3"
    by (simp add: render_def Let_def w1_def w3_def)
  have f: "renderedItems w1 = renderedItems w" "children w1 = children w"
    "scrollDomNode w1 = scrollDomNode w" "renderedItemsStart w1 = renderedItemsStart w"
    by (simp_all add: w1_def renderUntouchedLines_frame)
  let ?p = "nat (renderedItemsStart w + int i - startIndex rd)"
  have c3: "n \<in> set (children w3)"
    unfolding w3_def using at d i node lo hi by (intro edges_attached [of n w1 i]) (simp_all add: f)
  have k3: "renderedItems w3 ! ?p = renderedItems w ! i"
    using edges_keep [of i w1 rd] i lo hi by (simp add: w3_def f)
  have p3: "?p < length (renderedItems w3)"
    using lo hi by (simp add: w3_def edges_length)
  have d3: "distinct (nodes_of (renderedItems w3))"
  proof -
    have dl: "distinct (nodes_of (renderedItems (render_leading_edge rd w1)))"
      using d by (intro leading_edge_distinct) (simp add: f)
    have "renderedItems w3
        = take (length (tops rd)) (renderedItems (render_leading_edge rd w1))
          @ replicate (length (tops rd) - length (renderedItems (render_leading_edge rd w1)))
              createLine"
      unfolding w3_def by (rule trailing_edge_lines) (simp add: leading_edge_frame)
    moreover have "distinct (nodes_of (take c (renderedItems (render_leading_edge rd w1))))" for c
      using dl nodes_of_take_drop [of c "renderedItems (render_leading_edge rd w1)"]
      by (metis distinct_append)
    ultimately show ?thesis by (simp add: nodes_of_append nodes_of_new)
  qed
  show ?thesis
    unfolding r using c3 p3 _ _ d3
    by (rule finish_attached) (simp_all add: k3 clean node)
qed

text \<open>
  Claim C8. For every render pass, a line of the rendered window that is not dirty never
  has its content regenerated: \<open>ViewModel.render\<close> is not invoked for its line number in
  the pass. When the line stays in the window (its line number lies in the desired range),
  it is reused as it is, with the same node and still not dirty, at the position of its
  line number, and the node is only repositioned: \<open>layoutLine\<close> is called on it with its
  line number and the top offset that \<open>tops\<close> holds for that line number. The node
  also stays where it is on the surface: when the nodes of the rendered lines are pairwise
  distinct, and the node is a child of the container and not the retained node, it is a
  child of the container after the pass.
\<close>

theorem clean_lines_only_repositioned:
  assumes i: "i < length (renderedItems w)" and clean: "\<not> isDirty (renderedItems w ! i)"
  shows "(\<exists>calls. modelRendered (render rd now w) = modelRendered w @ calls
            \<and> renderedItemsStart w + int i \<notin> fst ` set calls)
       \<and> (startIndex rd \<le> renderedItemsStart w + int i
          \<and> renderedItemsStart w + int i \<le> startIndex rd + int (length (tops rd)) - 1 \<longrightarrow>
            renderedItemsStart (render rd now w) = startIndex rd
          \<and> renderedItems (render rd now w) ! nat (renderedItemsStart w + int i - startIndex rd)
              = renderedItems w ! i
          \<and> (\<forall>n. domNode (renderedItems w ! i) = Some n \<longrightarrow>
                (n, renderedItemsStart w + int i,
                 Some (tops rd ! nat (renderedItemsStart w + int i - startIndex rd)))
                  \<in> set (laidOut (render rd now w)))
          \<and> (\<forall>n. domNode (renderedItems w ! i) = Some n \<and> n \<in> set (children w)
                  \<and> scrollDomNode w \<noteq> Some n \<and> distinct (nodes_of (renderedItems w)) \<longrightarrow>
                n \<in> set (children (render rd now w))))"
proof -
  define k where "k = length (tops rd)"
  define s where "s = startIndex rd"
  define r where "r = renderedItemsStart w"
  define ln where "ln = r + int i"
  define a where "a = max (s - r) 0"
  define b where "b = min (s + int k - 1 - r) (int (length (renderedItems w)) - 1)"
  define w1 where "w1 = renderUntouchedLines a b (tops rd) s w"
  define w3 where "w3 = render_trailing_edge rd (render_leading_edge rd w1)"
  have w1: "renderedItems w1 = renderedItems w" "renderedItemsStart w1 = r"
    "modelRendered w1 = modelRendered w"
    by (simp_all add: w1_def renderUntouchedLines_frame r_def)
  have w3: "renderedItemsStart w3 = s" "modelRendered w3 = modelRendered w"
    "laidOut w3 = laidOut w1" "length (renderedItems w3) = k"
    by (simp_all add: w3_def trailing_edge_frame leading_edge_frame edges_length w1 s_def k_def)
  have kept: "renderedItems w3 ! nat (ln - s) = renderedItems w ! i"
    if "s \<le> ln" "ln \<le> s + int k - 1"
    using edges_keep [of i w1 rd] i that
    by (simp add: w3_def w1 ln_def s_def k_def)
  show ?thesis
  proof (cases "canRemoveScrollDomNode now w \<and> no_overlap rd w")
    case True
    let ?w0 = "w\<lparr>renderedItemsStart := s, renderedItems := replicate k createLine\<rparr>"
    have rn: "render rd now w = (finishRendering True (tops rd) ?w0)\<lparr>scrollDomNode := None\<rparr>"
      using True by (simp add: render_def render_afresh_def Let_def s_def k_def)
    have out: "ln < s \<or> s + int k - 1 < ln"
      using True i by (auto simp: no_overlap_def Let_def ln_def r_def s_def k_def)
    define calls where "calls = map (\<lambda>p. (int p + s, js_index (tops rd) (int p)))
        (filter (\<lambda>p. isDirty (renderedItems ?w0 ! p)) [0..<k])"
    have m: "modelRendered (render rd now w) = modelRendered w @ calls"
      by (simp add: rn finish_calls calls_def)
    have "ln \<notin> fst ` set calls"
    proof
      assume "ln \<in> fst ` set calls"
      then obtain p where "p < k" "ln = int p + s"
        unfolding calls_def by auto
      with out show False by simp
    qed
    have p1: "\<exists>calls. modelRendered (render rd now w) = modelRendered w @ calls
            \<and> ln \<notin> fst ` set calls"
      using m \<open>ln \<notin> fst ` set calls\<close> by (intro exI [of _ calls]) simp
    have p2: "\<not> (s \<le> ln \<and> ln \<le> s + int k - 1)"
      using out by linarith
    show ?thesis
      using p1 p2 unfolding ln_def r_def s_def k_def by (intro conjI impI) simp_all
  next
    case False
    have rn: "render rd now w = finishRendering False (tops rd) w3"
      using False by (auto simp: render_def Let_def w3_def w1_def a_def b_def s_def k_def r_def)
    define calls where "calls = map (\<lambda>p. (int p + s, js_index (tops rd) (int p)))
        (filter (\<lambda>p. isDirty (renderedItems w3 ! p)) [0..<k])"
    have m: "modelRendered (render rd now w) = modelRendered w @ calls"
      by (simp add: rn finish_calls calls_def w3)
    have notin: "ln \<notin> fst ` set calls"
    proof
      assume "ln \<in> fst ` set calls"
      then obtain p where p: "p < k" "isDirty (renderedItems w3 ! p)" "ln = int p + s"
        unfolding calls_def by auto
      then have "renderedItems w3 ! nat (ln - s) = renderedItems w ! i"
        by (intro kept) simp_all
      moreover have "nat (ln - s) = p" using p(3) by simp
      ultimately show False using p(2) clean by simp
    qed
    have stay: "renderedItemsStart (render rd now w) = s
          \<and> renderedItems (render rd now w) ! nat (ln - s) = renderedItems w ! i
          \<and> (\<forall>n. domNode (renderedItems w ! i) = Some n \<longrightarrow>
                (n, ln, Some (tops rd ! nat (ln - s))) \<in> set (laidOut (render rd now w)))
          \<and> (\<forall>n. domNode (renderedItems w ! i) = Some n \<and> n \<in> set (children w)
                  \<and> scrollDomNode w \<noteq> Some n \<and> distinct (nodes_of (renderedItems w)) \<longrightarrow>
                n \<in> set (children (render rd now w)))"
      if lo: "s \<le> ln" and hi: "ln \<le> s + int k - 1"
    proof -
      have pk: "nat (ln - s) < length (renderedItems w3)"
        using lo hi by (simp add: w3)
      have k3: "renderedItems w3 ! nat (ln - s) = renderedItems w ! i"
        using lo hi by (rule kept)
      have "renderedItems (render rd now w) ! nat (ln - s) = renderedItems w3 ! nat (ln - s)"
        unfolding rn using pk clean by (intro finish_keeps_clean) (simp_all add: k3)
      then have c1: "renderedItems (render rd now w) ! nat (ln - s) = renderedItems w ! i"
        by (simp add: k3)
      have c0: "renderedItemsStart (render rd now w) = s"
        by (simp add: rn finish_frame w3)
      have c2: "(n, ln, Some (tops rd ! nat (ln - s))) \<in> set (laidOut (render rd now w))"
        if n: "domNode (renderedItems w ! i) = Some n" for n
      proof -
        have "a \<le> int i" using lo by (simp add: a_def ln_def)
        moreover have "int i \<le> b" using hi i by (simp add: b_def ln_def)
        moreover have "js_index (renderedItems w) (int i) = Some (renderedItems w ! i)"
          using i by (simp add: js_index_def)
        ultimately have "(n, renderedItemsStart w + int i,
              js_index (tops rd) (renderedItemsStart w + int i - s))
            \<in> set (laidOut (renderUntouchedLines a b (tops rd) s w))"
          using n by (rule untouched_line_laid_out)
        moreover have "js_index (tops rd) (ln - s) = Some (tops rd ! nat (ln - s))"
          using lo hi by (simp add: js_index_def k_def)
        ultimately show ?thesis
          by (simp add: rn finish_frame w3 w1_def ln_def r_def)
      qed
      have c3: "n \<in> set (children (render rd now w))"
        if "domNode (renderedItems w ! i) = Some n" "n \<in> set (children w)"
          "scrollDomNode w \<noteq> Some n" "distinct (nodes_of (renderedItems w))" for n
        using i clean _ _ that
        by (rule kept_line_attached) (use lo hi in \<open>simp_all add: ln_def r_def s_def k_def\<close>)
      from c0 c1 c2 c3 show ?thesis by blast
    qed
    have p1: "\<exists>calls. modelRendered (render rd now w) = modelRendered w @ calls
            \<and> ln \<notin> fst ` set calls"
      using m notin by (intro exI [of _ calls]) simp
    have p2: "s \<le> ln \<and> ln \<le> s + int k - 1 \<longrightarrow>
            renderedItemsStart (render rd now w) = s
          \<and> renderedItems (render rd now w) ! nat (ln - s) = renderedItems w ! i
          \<and> (\<forall>n. domNode (renderedItems w ! i) = Some n \<longrightarrow>
                (n, ln, Some (tops rd ! nat (ln - s))) \<in> set (laidOut (render rd now w)))
          \<and> (\<forall>n. domNode (renderedItems w ! i) = Some n \<and> n \<in> set (children w)
                  \<and> scrollDomNode w \<noteq> Some n \<and> distinct (nodes_of (renderedItems w)) \<longrightarrow>
                n \<in> set (children (render rd now w)))"
      using stay by simp
    show ?thesis
      using p1 p2 unfolding ln_def r_def s_def k_def by (rule conjI)
  qed
qed

theorem clean_lines_only_repositioned_witness:
  "2 < length (renderedItems stale_window)
   \<and> \<not> isDirty (renderedItems stale_window ! 2)
   \<and> modelRendered (render next_render_data 0 stale_window) = [(2, Some 40), (4, Some 80)]
   \<and> 3 \<notin> fst ` set (modelRendered (render next_render_data 0 stale_window))
   \<and> renderedItems (render next_render_data 0 stale_window) ! 1
       = \<lparr>isDirty = False, domNode = Some 3\<rparr>
   \<and> (3, 3, Some 60) \<in> set (laidOut (render next_render_data 0 stale_window))
   \<and> 3 \<in> set (children stale_window)
   \<and> scrollDomNode stale_window \<noteq> Some 3
   \<and> distinct (nodes_of (renderedItems stale_window))
   \<and> 3 \<in> set (children (render next_render_data 0 stale_window))"
proof -
  have i: "2 < length (renderedItems stale_window)"
    and c: "\<not> isDirty (renderedItems stale_window ! 2)"
    by (simp_all add: stale_window_def)
  have f: "renderedItemsStart stale_window = 1" "startIndex next_render_data = 2"
    "length (tops next_render_data) = 3" "renderedItems stale_window ! 2
      = \<lparr>isDirty = False, domNode = Some 3\<rparr>" "tops next_render_data ! Suc 0 = 60"
    "modelRendered stale_window = []"
    by (simp_all add: stale_window_def next_render_data_def)
  have g: "3 \<in> set (children stale_window)" "scrollDomNode stale_window \<noteq> Some 3"
    "distinct (nodes_of (renderedItems stale_window))"
    by (simp_all add: stale_window_def nodes_of_def)
  have m: "modelRendered (render next_render_data 0 stale_window) = [(2, Some 40), (4, Some 80)]"
    by code_simp
  from clean_lines_only_repositioned [OF i c, of next_render_data 0]
  have "3 \<notin> fst ` set (modelRendered (render next_render_data 0 stale_window))"
    and "renderedItems (render next_render_data 0 stale_window) ! 1
       = \<lparr>isDirty = False, domNode = Some 3\<rparr>"
    and "(3, 3, Some 60) \<in> set (laidOut (render next_render_data 0 stale_window))"
    and "3 \<in> set (children (render next_render_data 0 stale_window))"
    using g by (auto simp: f)
  with i c m g show ?thesis by blast
qed

end
